theory Spec2Isabelle
  imports Main "HOL-Library.Word"
begin

section \<open>Strings\<close>

text \<open>
  A JavaScript string is a sequence of UTF-16 code units. \<open>js\<close> turns an ASCII literal
  into such a sequence, so that \<open>js ''e4''\<close> is the string \<^verbatim>\<open>"e4"\<close> of the source.
\<close>

type_synonym jschar = "16 word"
type_synonym jsstring = "jschar list"

definition js :: "string \<Rightarrow> jsstring" where
  "js s = map (\<lambda>c. of_nat (of_char c)) s"

abbreviation LPAREN :: jschar where "LPAREN \<equiv> 40"
abbreviation RPAREN :: jschar where "RPAREN \<equiv> 41"
abbreviation SPACE :: jschar where "SPACE \<equiv> 32"

section \<open>lib/chess.ts: tokenize\<close>

text \<open>
  \<^verbatim>\<open>
  const tokenize = (str: string): string[] => {
    const tokens: string[] = [];
    let current = '';
    for (let i = 0; i < str.length; i++) {
      const char = str[i];
      if (char === '(' || char === ')' || char === ' ') {
        if (current) tokens.push(current);
        if (char !== ' ') tokens.push(char);
        current = '';
      } else {
        current += char;
      }
    }
    if (current) tokens.push(current);
    return tokens;
  };
  \<close>
  The loop over \<open>i\<close> reads the code units of \<open>str\<close> in order; \<open>tokenize_loop\<close> is that
  loop on the units not yet read, with the two variables \<open>tokens\<close> and \<open>current\<close>.
\<close>

fun tokenize_loop :: "jsstring \<Rightarrow> jsstring list \<Rightarrow> jsstring \<Rightarrow> jsstring list" where
  "tokenize_loop [] tokens current =
     (if current \<noteq> [] then tokens @ [current] else tokens)"
| "tokenize_loop (char # rest) tokens current =
     (if char = LPAREN \<or> char = RPAREN \<or> char = SPACE then
        let tokens1 = (if current \<noteq> [] then tokens @ [current] else tokens);
            tokens2 = (if char \<noteq> SPACE then tokens1 @ [[char]] else tokens1)
        in tokenize_loop rest tokens2 []
      else tokenize_loop rest tokens (current @ [char]))"

definition tokenize :: "jsstring \<Rightarrow> jsstring list" where
  "tokenize str = tokenize_loop str [] []"

text \<open>A move-text token: not empty, and free of spaces and parentheses.\<close>

definition move_text :: "jsstring \<Rightarrow> bool" where
  "move_text t \<longleftrightarrow> t \<noteq> [] \<and> LPAREN \<notin> set t \<and> RPAREN \<notin> set t \<and> SPACE \<notin> set t"

definition token_ok :: "jsstring \<Rightarrow> bool" where
  "token_ok t \<longleftrightarrow> t = [LPAREN] \<or> t = [RPAREN] \<or> move_text t"

section \<open>lib/chess.ts: the cleaning pass of parsePgnToTree\<close>

text \<open>
  \<^verbatim>\<open>
  const cleanPgn = pgn
    .replace(/\{[\s\S]*?\}/g, '') // Remove comments
    .replace(/\$\d+/g, '') // Remove NAGs
    .replace(/\d+\.+/g, ' ') // Remove move numbers
    .replace(/\s+/g, ' ')
    .replace(/1-0|0-1|1\/2-1\/2|\*/g, '') // Remove results
    .trim();
  \<close>
  Each global replacement scans from the left, replaces the leftmost match and goes on
  behind it. \<open>isDigit\<close> is the class \<^verbatim>\<open>\d\<close> and \<open>isSpace\<close> the class \<^verbatim>\<open>\s\<close>
  (white space and line terminators, which are also what \<^verbatim>\<open>trim\<close> strips).
\<close>

definition isDigit :: "jschar \<Rightarrow> bool" where
  "isDigit c \<longleftrightarrow> 48 \<le> c \<and> c \<le> 57"

definition isSpace :: "jschar \<Rightarrow> bool" where
  "isSpace c \<longleftrightarrow>
     (9 \<le> c \<and> c \<le> 13) \<or> c = 32 \<or> c = 0xA0 \<or> c = 0x1680
     \<or> (0x2000 \<le> c \<and> c \<le> 0x200A) \<or> c = 0x2028 \<or> c = 0x2029 \<or> c = 0x202F
     \<or> c = 0x205F \<or> c = 0x3000 \<or> c = 0xFEFF"

text \<open>
  \<^verbatim>\<open>/\{[\s\S]*?\}/g\<close>: the lazy star ends the match at the first closing brace behind
  the opening one; an opening brace with no closing brace behind it matches nothing.
\<close>

function remove_comments :: "jsstring \<Rightarrow> jsstring" where
  "remove_comments [] = []"
| "remove_comments (c # cs) =
     (if c = 0x7B \<and> 0x7D \<in> set cs
      then remove_comments (tl (dropWhile (\<lambda>x. x \<noteq> 0x7D) cs))
      else c # remove_comments cs)"
  by pat_completeness auto
termination
  by (relation "measure length")
     (auto simp: less_Suc_eq_le intro: order_trans [OF diff_le_self length_dropWhile_le])

text \<open>\<^verbatim>\<open>/\$\d+/g\<close>: a dollar sign and the longest run of digits behind it, at least one.\<close>

function remove_nags :: "jsstring \<Rightarrow> jsstring" where
  "remove_nags [] = []"
| "remove_nags (c # cs) =
     (if c = 0x24 \<and> takeWhile isDigit cs \<noteq> []
      then remove_nags (dropWhile isDigit cs)
      else c # remove_nags cs)"
  by pat_completeness auto
termination
  by (relation "measure length") (auto intro: le_imp_less_Suc length_dropWhile_le)

text \<open>
  \<^verbatim>\<open>/\d+\.+/g\<close>: a run of digits and the dots behind it, at least one of each. A run of
  digits with no dot behind it holds no match at all (a match starting inside the run
  would need a dot behind one of its digits), so the scan goes on behind the run.
\<close>

function remove_move_numbers :: "jsstring \<Rightarrow> jsstring" where
  "remove_move_numbers [] = []"
| "remove_move_numbers (c # cs) =
     (if isDigit c then
        (let rest = dropWhile isDigit cs in
         if takeWhile (\<lambda>x. x = 0x2E) rest \<noteq> []
         then SPACE # remove_move_numbers (dropWhile (\<lambda>x. x = 0x2E) rest)
         else (c # takeWhile isDigit cs) @ remove_move_numbers rest)
      else c # remove_move_numbers cs)"
  by pat_completeness auto
termination
  by (relation "measure length")
     (auto intro: le_imp_less_Suc length_dropWhile_le
             order_trans [OF length_dropWhile_le length_dropWhile_le])

text \<open>\<^verbatim>\<open>/\s+/g\<close>: every longest run of white space becomes one space.\<close>

function collapse_whitespace :: "jsstring \<Rightarrow> jsstring" where
  "collapse_whitespace [] = []"
| "collapse_whitespace (c # cs) =
     (if isSpace c then SPACE # collapse_whitespace (dropWhile isSpace cs)
      else c # collapse_whitespace cs)"
  by pat_completeness auto
termination
  by (relation "measure length") (auto intro: le_imp_less_Suc length_dropWhile_le)

text \<open>
  \<^verbatim>\<open>/1-0|0-1|1\/2-1\/2|\*/g\<close>: at each position the alternatives are tried in the order
  written.
\<close>

function remove_results :: "jsstring \<Rightarrow> jsstring" where
  "remove_results [] = []"
| "remove_results (c # cs) =
     (if take 3 (c # cs) = js ''1-0'' then remove_results (drop 2 cs)
      else if take 3 (c # cs) = js ''0-1'' then remove_results (drop 2 cs)
      else if take 7 (c # cs) = js ''1/2-1/2'' then remove_results (drop 6 cs)
      else if c = 0x2A then remove_results cs
      else c # remove_results cs)"
  by pat_completeness auto
termination
  by (relation "measure length") auto

definition trim :: "jsstring \<Rightarrow> jsstring" where
  "trim s = rev (dropWhile isSpace (rev (dropWhile isSpace s)))"

definition cleanPgn :: "jsstring \<Rightarrow> jsstring" where
  "cleanPgn pgn =
     trim (remove_results (collapse_whitespace (remove_move_numbers
       (remove_nags (remove_comments pgn)))))"

section \<open>The chess.js collaborator\<close>

text \<open>
  The library chess.js is imported, not part of the repository. Its class \<^verbatim>\<open>Chess\<close> is
  taken as a parameter: a type \<open>'g\<close> of game objects and the operations the repository
  calls on them. A call that mutates the game object returns the new game here.
  \<^item> \<open>new_Chess\<close> is \<^verbatim>\<open>new Chess()\<close>;
  \<^item> \<open>load_Chess f\<close> is \<^verbatim>\<open>new Chess(f)\<close>, \<open>None\<close> when the constructor throws;
  \<^item> \<open>chess_move g t\<close> is \<^verbatim>\<open>g.move(t)\<close> on move text and \<open>chess_move_obj g from to p\<close>
    is \<^verbatim>\<open>g.move({ from, to, promotion: p })\<close>: the move made and the game behind it, or
    the value \<^verbatim>\<open>null\<close>, or an exception; in the last two cases the game is as before;
  \<^item> \<open>chess_fen\<close>, \<open>chess_undo\<close> and \<open>chess_turn\<close> are \<^verbatim>\<open>fen()\<close>, \<^verbatim>\<open>undo()\<close>
    and \<^verbatim>\<open>turn()\<close>.
  Of a \<^verbatim>\<open>Move\<close> the repository reads \<^verbatim>\<open>san\<close>, \<^verbatim>\<open>lan\<close>, \<^verbatim>\<open>from\<close> and \<^verbatim>\<open>to\<close>.
\<close>

record Move =
  move_san :: jsstring
  lan :: jsstring
  move_from :: jsstring
  move_to :: jsstring

datatype 'a move_result = Moved 'a | Null | Throws

record 'g Chess =
  new_Chess :: 'g
  load_Chess :: "jsstring \<Rightarrow> 'g option"
  chess_move :: "'g \<Rightarrow> jsstring \<Rightarrow> ('g \<times> Move) move_result"
  chess_move_obj :: "'g \<Rightarrow> jsstring \<Rightarrow> jsstring \<Rightarrow> jsstring \<Rightarrow> ('g \<times> Move) move_result"
  chess_fen :: "'g \<Rightarrow> jsstring"
  chess_undo :: "'g \<Rightarrow> 'g"
  chess_turn :: "'g \<Rightarrow> jsstring"

section \<open>lib/chess.ts: the move tree\<close>

text \<open>
  \<^verbatim>\<open>
  export interface MoveNode {
    id: string;
    move: Move | null; // null for root
    san: string;
    fen: string;
    children: MoveNode[];
    parent: MoveNode | null;
    isMainLine: boolean;
  }
  \<close>
  The nodes are objects that refer to each other (\<^verbatim>\<open>children\<close>, \<^verbatim>\<open>parent\<close>) and are
  updated in place (\<^verbatim>\<open>currentParent.children.push(node)\<close>). They live in a store, a
  list of nodes in the order of their creation; a reference to a node is its index there.
\<close>

type_synonym ref = nat

record MoveNode =
  node_id :: jsstring
  move :: "Move option"
  san :: jsstring
  fen :: jsstring
  children :: "ref list"
  parent :: "ref option"
  isMainLine :: bool

type_synonym store = "MoveNode list"

definition deref :: "store \<Rightarrow> ref \<Rightarrow> MoveNode option" where
  "deref h r = (if r < length h then Some (h ! r) else None)"

text \<open>
  \<^verbatim>\<open>
  export const generateId = (): string => {
    return Math.random().toString(36).substring(2, 9);
  };
  \<close>
  The random numbers are a parameter: \<open>rnd k\<close> is the string that the call number \<open>k\<close> of
  \<^verbatim>\<open>generateId\<close> returns. The state of a parse is the store and the number of calls made.
\<close>

record pstate =
  heap :: store
  calls :: nat

definition generateId :: "(nat \<Rightarrow> jsstring) \<Rightarrow> pstate \<Rightarrow> jsstring \<times> pstate" where
  "generateId rnd st = (rnd (calls st), st\<lparr>calls := Suc (calls st)\<rparr>)"

datatype error =
  InvalidFen jsstring  \<comment> \<open>\<^verbatim>\<open>new Chess(fen)\<close> throws\<close>
| BadRef ref  \<comment> \<open>a reference to no node of the store (no object of the source is such)\<close>

section \<open>lib/chess.ts: buildTree\<close>

text \<open>
  The inner loop that looks for the matching closing parenthesis:
  \<^verbatim>\<open>
  let depth = 1;
  let j = i + 1;
  while (j < tokens.length && depth > 0) {
    if (tokens[j] === '(') depth++;
    if (tokens[j] === ')') depth--;
    j++;
  }
  \<close>
\<close>

function matchParen :: "jsstring list \<Rightarrow> nat \<Rightarrow> nat \<Rightarrow> nat" where
  "matchParen tokens depth j =
     (if j < length tokens \<and> depth > 0 then
        let depth1 = (if tokens ! j = [LPAREN] then depth + 1 else depth);
            depth2 = (if tokens ! j = [RPAREN] then depth1 - 1 else depth1)
        in matchParen tokens depth2 (j + 1)
      else j)"
  by pat_completeness auto
termination
  by (relation "measure (\<lambda>(tokens, depth, j). length tokens - j)") auto

text \<open>
  \<^verbatim>\<open>tokens.slice(start, end)\<close> for indices that are not negative: the elements from
  \<open>start\<close> up to, not including, \<open>end\<close>; none when \<open>end \<le> start\<close>.
\<close>

definition slice :: "'a list \<Rightarrow> nat \<Rightarrow> nat \<Rightarrow> 'a list" where
  "slice xs start end = (if end \<le> start then [] else take (end - start) (drop start xs))"

text \<open>
  The creation of a node and \<^verbatim>\<open>currentParent.children.push(node)\<close>:
  \<^verbatim>\<open>
  const node: MoveNode = {
    id: generateId(),
    move,
    san: move.san,
    fen: game.fen(),
    children: [],
    parent: currentParent,
    isMainLine,
  };
  currentParent.children.push(node);
  \<close>
  The result is the reference to the new node and the new state.
\<close>

definition attach ::
  "(nat \<Rightarrow> jsstring) \<Rightarrow> Move \<Rightarrow> jsstring \<Rightarrow> ref \<Rightarrow> bool \<Rightarrow> pstate \<Rightarrow> error + (ref \<times> pstate)" where
  "attach rnd mv position currentParent isMain st =
     (case deref (heap st) currentParent of
        None \<Rightarrow> Inl (BadRef currentParent)
      | Some cp \<Rightarrow>
          let (ident, st1) = generateId rnd st;
              node = \<lparr>node_id = ident, move = Some mv, san = move_san mv, fen = position,
                      children = [], parent = Some currentParent, isMainLine = isMain\<rparr>;
              r = length (heap st1)
          in Inr (r, st1\<lparr>heap := (heap st1)[currentParent := cp\<lparr>children := children cp @ [r]\<rparr>]
                                    @ [node]\<rparr>))"

text \<open>
  \<^verbatim>\<open>
  const buildTree = (tokens, parentNode, game, isMainLine): number => {
    let i = 0;
    let currentParent = parentNode;
    while (i < tokens.length) {
      const token = tokens[i];
      if (token === '(') {
        ... (the search for the matching parenthesis, above)
        const variationTokens = tokens.slice(i + 1, j - 1);
        if (currentParent.parent) {
          const branchPoint = currentParent.parent;
          const branchGame = new Chess(branchPoint.fen);
          buildTree(variationTokens, branchPoint, branchGame, false);
        }
        i = j;
      } else if (token === ')') {
        return i + 1;
      } else {
        try {
          if (!token) { i++; continue; }
          const move = game.move(token);
          if (move) {
            ... (the creation of the node, above)
            currentParent = node;
          }
        } catch { }
        i++;
      }
    }
    return i;
  };
  \<close>
  \<open>buildTree_loop\<close> is the while loop, with the loop variables \<open>i\<close> and \<open>currentParent\<close>
  and the game object, which \<^verbatim>\<open>game.move\<close> changes, as arguments; \<open>buildTree\<close> enters
  it as the source does. The result is the number returned and the state, or the
  exception that leaves the function.
\<close>

function buildTree_loop ::
  "'g Chess \<Rightarrow> (nat \<Rightarrow> jsstring) \<Rightarrow> jsstring list \<Rightarrow> bool \<Rightarrow> nat \<Rightarrow> ref \<Rightarrow> 'g \<Rightarrow> pstate
   \<Rightarrow> error + (nat \<times> pstate)" where
  "buildTree_loop E rnd tokens isMain i currentParent game st =
     (if i < length tokens then
        let token = tokens ! i in
        if token = [LPAREN] then
          let j = matchParen tokens 1 (i + 1);
              variationTokens = slice tokens (i + 1) (j - 1)
          in (case deref (heap st) currentParent of
                None \<Rightarrow> Inl (BadRef currentParent)
              | Some cp \<Rightarrow>
                 (case parent cp of
                    None \<Rightarrow> buildTree_loop E rnd tokens isMain j currentParent game st
                  | Some branchPoint \<Rightarrow>
                     (case deref (heap st) branchPoint of
                        None \<Rightarrow> Inl (BadRef branchPoint)
                      | Some bp \<Rightarrow>
                         (case load_Chess E (fen bp) of
                            None \<Rightarrow> Inl (InvalidFen (fen bp))
                          | Some branchGame \<Rightarrow>
                             (case buildTree_loop E rnd variationTokens False 0 branchPoint
                                     branchGame st of
                                Inl e \<Rightarrow> Inl e
                              | Inr (k, st') \<Rightarrow>
                                  buildTree_loop E rnd tokens isMain j currentParent game st')))))
        else if token = [RPAREN] then Inr (i + 1, st)
        else if token = [] then buildTree_loop E rnd tokens isMain (i + 1) currentParent game st
        else
          (case chess_move E game token of
             Moved (game', mv) \<Rightarrow>
               (case attach rnd mv (chess_fen E game') currentParent isMain st of
                  Inl e \<Rightarrow> Inl e
                | Inr (node, st') \<Rightarrow> buildTree_loop E rnd tokens isMain (i + 1) node game' st')
           | Null \<Rightarrow> buildTree_loop E rnd tokens isMain (i + 1) currentParent game st
           | Throws \<Rightarrow> buildTree_loop E rnd tokens isMain (i + 1) currentParent game st)
      else Inr (i, st))"
  by pat_completeness auto

declare matchParen.simps [simp del]

lemma matchParen_ge: "j \<le> matchParen tokens depth j"
proof (induction tokens depth j rule: matchParen.induct)
  case (1 tokens depth j)
  show ?case
  proof (cases "j < length tokens \<and> depth > 0")
    case True
    have "j + 1 \<le> matchParen tokens
        (if tokens ! j = [RPAREN]
         then (if tokens ! j = [LPAREN] then depth + 1 else depth) - 1
         else (if tokens ! j = [LPAREN] then depth + 1 else depth)) (j + 1)"
      using "1.IH" [OF True refl refl] .
    then show ?thesis
      using True by (subst matchParen.simps) (simp add: Let_def)
  next
    case False
    then show ?thesis by (subst matchParen.simps) auto
  qed
qed

lemma length_slice_less: "start < length xs \<Longrightarrow> length (slice xs (Suc start) e) < length xs"
  by (auto simp: slice_def)

termination buildTree_loop
proof (relation "measures [\<lambda>(E, rnd, tokens, isMain, i, currentParent, game, st). length tokens,
                          \<lambda>(E, rnd, tokens, isMain, i, currentParent, game, st). length tokens - i]",
       goal_cases)
  case 1
  then show ?case by simp
next
  case (2 E rnd tokens isMain i currentParent game st token j variationTokens)
  then show ?case
    using matchParen_ge [of "Suc i" tokens 1] by auto
next
  case (3 E rnd tokens isMain i currentParent game st token j variationTokens cp branchPoint bp branchGame)
  then show ?case by (simp add: length_slice_less)
next
  case (4 E rnd tokens isMain i currentParent game st token j variationTokens cp branchPoint bp branchGame r k st')
  then show ?case
    using matchParen_ge [of "Suc i" tokens 1] by auto
qed auto

declare buildTree_loop.simps [simp del]

definition buildTree ::
  "'g Chess \<Rightarrow> (nat \<Rightarrow> jsstring) \<Rightarrow> jsstring list \<Rightarrow> ref \<Rightarrow> 'g \<Rightarrow> bool \<Rightarrow> pstate
   \<Rightarrow> error + (nat \<times> pstate)" where
  "buildTree E rnd tokens parentNode game isMain st =
     buildTree_loop E rnd tokens isMain 0 parentNode game st"

section \<open>lib/chess.ts: parsePgnToTree\<close>

text \<open>
  \<^verbatim>\<open>
  export const parsePgnToTree = (pgn: string): MoveNode => {
    const root: MoveNode = {
      id: 'root', move: null, san: '', fen: new Chess().fen(),
      children: [], parent: null, isMainLine: true,
    };
    const cleanPgn = ...;
    if (!cleanPgn) return root;
    const tokens = tokenize(cleanPgn);
    buildTree(tokens, root, new Chess(), true);
    return root;
  };
  \<close>
  The root is the first node of a new store, so the tree returned is the store with the
  root at reference \<open>0\<close>.
\<close>

definition root_node :: "'g Chess \<Rightarrow> MoveNode" where
  "root_node E = \<lparr>node_id = js ''root'', move = None, san = [], fen = chess_fen E (new_Chess E),
                  children = [], parent = None, isMainLine = True\<rparr>"

abbreviation (input) root :: ref where "root \<equiv> 0"

definition parsePgnToTree :: "'g Chess \<Rightarrow> (nat \<Rightarrow> jsstring) \<Rightarrow> jsstring \<Rightarrow> error + store" where
  "parsePgnToTree E rnd pgn =
     (let st0 = \<lparr>heap = [root_node E], calls = 0\<rparr> in
      if cleanPgn pgn = [] then Inr (heap st0)
      else (case buildTree E rnd (tokenize (cleanPgn pgn)) root (new_Chess E) True st0 of
              Inl e \<Rightarrow> Inl e
            | Inr (k, st) \<Rightarrow> Inr (heap st)))"

section \<open>lib/chess.ts: the queries on a tree\<close>

text \<open>
  The queries follow the references of the nodes. On a store whose references run in a
  circle they do not return, and no object of the source is a reference to nothing; the
  value \<open>None\<close> stands for both.
\<close>

fun flatMapM :: "('a \<Rightarrow> 'b list option) \<Rightarrow> 'a list \<Rightarrow> 'b list option" where
  "flatMapM f [] = Some []"
| "flatMapM f (x # xs) =
     Option.bind (f x) (\<lambda>ys. Option.bind (flatMapM f xs) (\<lambda>zs. Some (ys @ zs)))"

lemma flatMapM_mono [partial_function_mono]:
  assumes "\<And>x. mono_option (\<lambda>f. g f x)"
  shows "mono_option (\<lambda>f. flatMapM (g f) xs)"
proof (induction xs)
  case Nil
  show ?case by (simp add: option.const_mono)
next
  case (Cons x xs)
  show ?case
    unfolding flatMapM.simps
    by (intro bind_mono assms Cons.IH option.const_mono)
qed

text \<open>
  \<^verbatim>\<open>
  export const getLeafNodes = (node: MoveNode): MoveNode[] => {
    if (node.children.length === 0) {
      return [node];
    }
    return node.children.flatMap(getLeafNodes);
  };
  \<close>
\<close>

partial_function (option) getLeafNodes :: "store \<Rightarrow> ref \<Rightarrow> ref list option" where
  "getLeafNodes h node =
     (case deref h node of
        None \<Rightarrow> None
      | Some n \<Rightarrow>
          if length (children n) = 0 then Some [node]
          else flatMapM (getLeafNodes h) (children n))"

declare getLeafNodes.simps [code]

text \<open>
  \<^verbatim>\<open>
  export const getAllLines = (root: MoveNode): MoveNode[][] => {
    const leaves = getLeafNodes(root);
    return leaves.map((leaf) => {
      const line: MoveNode[] = [];
      let current: MoveNode | null = leaf;
      while (current && current.move) {
        line.unshift(current);
        current = current.parent;
      }
      return line;
    });
  };
  \<close>
\<close>

partial_function (option) line_loop :: "store \<Rightarrow> ref option \<Rightarrow> ref list \<Rightarrow> ref list option" where
  "line_loop h current line =
     (case current of
        None \<Rightarrow> Some line
      | Some c \<Rightarrow>
         (case deref h c of
            None \<Rightarrow> None
          | Some n \<Rightarrow>
              if move n \<noteq> None then line_loop h (parent n) (c # line) else Some line))"

declare line_loop.simps [code]

definition getAllLines :: "store \<Rightarrow> ref \<Rightarrow> ref list list option" where
  "getAllLines h r =
     Option.bind (getLeafNodes h r)
       (\<lambda>leaves. those (map (\<lambda>leaf. line_loop h (Some leaf) []) leaves))"

text \<open>
  \<^verbatim>\<open>
  export const getPathToNode = (node: MoveNode): MoveNode[] => {
    const path: MoveNode[] = [];
    let current: MoveNode | null = node;
    while (current) {
      path.unshift(current);
      current = current.parent;
    }
    return path;
  };
  \<close>
\<close>

partial_function (option) path_loop :: "store \<Rightarrow> ref option \<Rightarrow> ref list \<Rightarrow> ref list option" where
  "path_loop h current path =
     (case current of
        None \<Rightarrow> Some path
      | Some c \<Rightarrow>
         (case deref h c of
            None \<Rightarrow> None
          | Some n \<Rightarrow> path_loop h (parent n) (c # path)))"

declare path_loop.simps [code]

definition getPathToNode :: "store \<Rightarrow> ref \<Rightarrow> ref list option" where
  "getPathToNode h node = path_loop h (Some node) []"

text \<open>
  \<^verbatim>\<open>
  export const findNextUnplayedLine = (root, completedLines: Set<string>): MoveNode[] | null => {
    const allLines = getAllLines(root);
    for (const line of allLines) {
      const leafId = line[line.length - 1]?.id;
      if (leafId && !completedLines.has(leafId)) {
        return line;
      }
    }
    return null;
  };
  \<close>
  \<open>findNext_loop\<close> is the loop over the lines. Of an empty line \<^verbatim>\<open>leafId\<close> is
  \<^verbatim>\<open>undefined\<close>, and the test \<^verbatim>\<open>leafId && ...\<close> fails for \<^verbatim>\<open>undefined\<close> and for
  the empty string. The inner \<open>None\<close> of the result is \<^verbatim>\<open>null\<close>.
\<close>

fun findNext_loop :: "store \<Rightarrow> jsstring set \<Rightarrow> ref list list \<Rightarrow> ref list option option" where
  "findNext_loop h completedLines [] = Some None"
| "findNext_loop h completedLines (line # rest) =
     (if line = [] then findNext_loop h completedLines rest
      else
        (case deref h (last line) of
           None \<Rightarrow> None
         | Some leaf \<Rightarrow>
             if node_id leaf \<noteq> [] \<and> node_id leaf \<notin> completedLines then Some (Some line)
             else findNext_loop h completedLines rest))"

definition findNextUnplayedLine :: "store \<Rightarrow> ref \<Rightarrow> jsstring set \<Rightarrow> ref list option option" where
  "findNextUnplayedLine h r completedLines =
     Option.bind (getAllLines h r) (findNext_loop h completedLines)"

section \<open>lib/chess.ts: studies\<close>

text \<open>
  \<^verbatim>\<open>
  export interface Study {
    id: string; name: string; pgn: string;
    defaultColor: 'white' | 'black';
    createdAt: number; updatedAt: number;
  }
  export const updateStudy = (study: Study, updates: Partial<Study>): Study => {
    return { ...study, ...updates, updatedAt: Date.now() };
  };
  \<close>
  The two arguments are objects with the six keys of a study. A key of an object is
  absent, or present with the value \<^verbatim>\<open>undefined\<close>, or present with a value: a
  \<^verbatim>\<open>Partial<Study>\<close> admits all three for every key, and the spread copies every key that
  is present, also one whose value is \<^verbatim>\<open>undefined\<close>. Reading a key that is absent gives
  \<^verbatim>\<open>undefined\<close> too: \<open>read\<close>, with \<open>None\<close> for \<^verbatim>\<open>undefined\<close>. The time stamps are the whole
  numbers of \<^verbatim>\<open>Date.now()\<close>, whose value at the call is the parameter \<open>now\<close>.
\<close>

datatype Color = White | Black

datatype 'a key = Absent | Undefined | Present 'a

record Study =
  study_id :: "jsstring key"
  name :: "jsstring key"
  pgn :: "jsstring key"
  defaultColor :: "Color key"
  createdAt :: "int key"
  updatedAt :: "int key"






section \<open>App.vue: the drill\<close>

text \<open>
  The state of the component: its refs, the store that holds the nodes of \<^verbatim>\<open>moveTree\<close>,
  and the timeouts that are pending (number, callback, delay in milliseconds).
  \<^verbatim>\<open>setTimeout\<close> adds one and returns its number; the numbers start at 1.
\<close>

datatype AppMode = Edit | Drill

datatype Feedback = Correct | Variation | Wrong

datatype Callback = StartNextLine | PlayOpponentMove | ClearFeedback | OpponentIfNotPlayerTurn

record 'g App =
  mode :: AppMode
  playerColor :: Color
  nodes :: store
  moveTree :: "ref option"
  currentNode :: "ref option"
  completedLines :: "jsstring set"
  currentTargetLine :: "ref list"
  currentTargetIndex :: nat
  game :: 'g
  gameVersion :: nat
  feedback :: "Feedback option"
  feedbackTimer :: "nat option"
  lastMove :: "jsstring list"
  timers :: "(nat \<times> Callback \<times> nat) list"
  nextTimer :: nat
  alerts :: nat

definition setTimeout :: "Callback \<Rightarrow> nat \<Rightarrow> 'g App \<Rightarrow> nat \<times> 'g App" where
  "setTimeout cb ms a =
     (nextTimer a, a\<lparr>timers := timers a @ [(nextTimer a, cb, ms)], nextTimer := Suc (nextTimer a)\<rparr>)"

definition clearTimeout :: "nat \<Rightarrow> 'g App \<Rightarrow> 'g App" where
  "clearTimeout t a = a\<lparr>timers := filter (\<lambda>(k, cb, ms). k \<noteq> t) (timers a)\<rparr>"

text \<open>
  \<^verbatim>\<open>
  const updateGame = () => {
    gameVersion.value++;
    triggerRef(game);
  };
  const showFeedback = (type: "correct" | "variation" | "wrong") => {
    feedback.value = type;
    if (feedbackTimer.value) clearTimeout(feedbackTimer.value);
    feedbackTimer.value = window.setTimeout(() => {
      feedback.value = null;
    }, 800);
  };
  const getCurrentExpectedMoves = (): MoveNode[] => {
    if (!moveTree.value) return [];
    if (!currentNode.value) return moveTree.value.children;
    return currentNode.value.children;
  };
  \<close>
\<close>

definition updateGame :: "'g App \<Rightarrow> 'g App" where
  "updateGame a = a\<lparr>gameVersion := Suc (gameVersion a)\<rparr>"

definition showFeedback :: "Feedback \<Rightarrow> 'g App \<Rightarrow> 'g App" where
  "showFeedback type a =
     (let a1 = a\<lparr>feedback := Some type\<rparr>;
          a2 = (case feedbackTimer a1 of
                  None \<Rightarrow> a1
                | Some t \<Rightarrow> if t \<noteq> 0 then clearTimeout t a1 else a1);
          (t, a3) = setTimeout ClearFeedback 800 a2
      in a3\<lparr>feedbackTimer := Some t\<rparr>)"

definition getCurrentExpectedMoves :: "'g App \<Rightarrow> ref list option" where
  "getCurrentExpectedMoves a =
     (case moveTree a of
        None \<Rightarrow> Some []
      | Some r \<Rightarrow>
         (case currentNode a of
            None \<Rightarrow> map_option children (deref (nodes a) r)
          | Some c \<Rightarrow> map_option children (deref (nodes a) c)))"

text \<open>
  \<^verbatim>\<open>expectedMoves.find((n) => n.move?.lan === move.lan)\<close>: the first node of the list
  whose move has the long notation of \<open>mv\<close>; the inner \<open>None\<close> is \<^verbatim>\<open>undefined\<close>.
\<close>

definition same_lan :: "MoveNode \<Rightarrow> Move \<Rightarrow> bool" where
  "same_lan n mv = (case move n of None \<Rightarrow> False | Some m \<Rightarrow> lan m = lan mv)"

fun find_lan :: "store \<Rightarrow> Move \<Rightarrow> ref list \<Rightarrow> ref option option" where
  "find_lan h mv [] = Some None"
| "find_lan h mv (n # ns) =
     (case deref h n of
        None \<Rightarrow> None
      | Some nd \<Rightarrow> if same_lan nd mv then Some (Some n) else find_lan h mv ns)"

text \<open>
  \<^verbatim>\<open>
  const markVariationComplete = (node: MoveNode) => {
    if (node.children.length === 0) {
      completedLines.value = new Set([...completedLines.value, node.id]);
    } else if (node.children[0]) {
      markVariationComplete(node.children[0]);
    }
  };
  \<close>
  The result is the new value of \<^verbatim>\<open>completedLines\<close>.
\<close>

partial_function (option) markVariationComplete ::
  "store \<Rightarrow> ref \<Rightarrow> jsstring set \<Rightarrow> jsstring set option" where
  "markVariationComplete h node completed =
     (case deref h node of
        None \<Rightarrow> None
      | Some n \<Rightarrow>
         (case children n of
            [] \<Rightarrow> Some (insert (node_id n) completed)
          | c # cs \<Rightarrow> markVariationComplete h c completed))"

declare markVariationComplete.simps [code]

text \<open>
  \<^verbatim>\<open>
  const handleMove = (orig: string, dest: string) => {
    if (mode.value === "edit") {
      const move = game.value.move({ from: orig, to: dest, promotion: "q" });
      if (move) {
        const expectedMoves = getCurrentExpectedMoves();
        const matchingNode = expectedMoves.find((n) => n.move?.lan === move.lan);
        if (matchingNode) { currentNode.value = matchingNode; }
        else { currentNode.value = null; }
        lastMove.value = [orig, dest];
        updateGame();
      }
      return;
    }
    const move = game.value.move({ from: orig, to: dest, promotion: "q" });
    if (!move) return;
    const targetNode = currentTargetLine.value[currentTargetIndex.value];
    if (targetNode && targetNode.move?.lan === move.lan) {
      showFeedback("correct");
      currentNode.value = targetNode;
      lastMove.value = [orig, dest];
      currentTargetIndex.value++;
      updateGame();
      if (currentTargetIndex.value === currentTargetLine.value.length) {
        completedLines.value = new Set([...completedLines.value, targetNode.id]);
        setTimeout(startNextLine, 800);
      } else {
        setTimeout(playOpponentMove, 500);
      }
      return;
    }
    const expectedMoves = getCurrentExpectedMoves();
    const matchingNode = expectedMoves.find((n) => n.move?.lan === move.lan);
    if (matchingNode) {
      showFeedback("variation");
      currentNode.value = matchingNode;
      lastMove.value = [orig, dest];
      updateGame();
      ... (markVariationComplete, above)
      markVariationComplete(matchingNode);
      setTimeout(startNextLine, 1000);
    } else {
      showFeedback("wrong");
      game.value.undo();
      updateGame();
    }
  };
  \<close>
  The result is the state when the handler returns; \<open>None\<close> when it does not return: an
  exception of \<^verbatim>\<open>game.value.move\<close> leaves it (nothing is written before), or a walk along
  the references does not end.
\<close>

definition target_matches :: "store \<Rightarrow> ref list \<Rightarrow> nat \<Rightarrow> Move \<Rightarrow> bool option" where
  "target_matches h line k mv =
     (if k < length line
      then map_option (\<lambda>n. same_lan n mv) (deref h (line ! k))
      else Some False)"

definition handleMove_edit :: "'g Chess \<Rightarrow> jsstring \<Rightarrow> jsstring \<Rightarrow> 'g App \<Rightarrow> 'g App option" where
  "handleMove_edit E orig dest a =
     (case chess_move_obj E (game a) orig dest (js ''q'') of
        Throws \<Rightarrow> None
      | Null \<Rightarrow> Some a
      | Moved (g', mv) \<Rightarrow>
          Option.bind (getCurrentExpectedMoves a) (\<lambda>expectedMoves.
          Option.bind (find_lan (nodes a) mv expectedMoves) (\<lambda>matchingNode.
            Some (updateGame (a\<lparr>game := g', currentNode := matchingNode,
                                  lastMove := [orig, dest]\<rparr>)))))"

definition handleMove_drill :: "'g Chess \<Rightarrow> jsstring \<Rightarrow> jsstring \<Rightarrow> 'g App \<Rightarrow> 'g App option" where
  "handleMove_drill E orig dest a =
     (case chess_move_obj E (game a) orig dest (js ''q'') of
        Throws \<Rightarrow> None
      | Null \<Rightarrow> Some a
      | Moved (g', mv) \<Rightarrow>
          Option.bind (target_matches (nodes a) (currentTargetLine a) (currentTargetIndex a) mv)
          (\<lambda>onTarget.
            if onTarget then
              (let targetNode = currentTargetLine a ! currentTargetIndex a;
                   a1 = showFeedback Correct (a\<lparr>game := g'\<rparr>);
                   a2 = updateGame (a1\<lparr>currentNode := Some targetNode, lastMove := [orig, dest],
                                         currentTargetIndex := Suc (currentTargetIndex a1)\<rparr>)
               in if currentTargetIndex a2 = length (currentTargetLine a2)
                  then Some (snd (setTimeout StartNextLine 800
                         (a2\<lparr>completedLines :=
                               insert (node_id (nodes a ! targetNode)) (completedLines a2)\<rparr>)))
                  else Some (snd (setTimeout PlayOpponentMove 500 a2)))
            else
              Option.bind (getCurrentExpectedMoves a) (\<lambda>expectedMoves.
              Option.bind (find_lan (nodes a) mv expectedMoves) (\<lambda>matchingNode.
                (case matchingNode of
                   Some m \<Rightarrow>
                     (let a1 = showFeedback Variation (a\<lparr>game := g'\<rparr>);
                          a2 = updateGame (a1\<lparr>currentNode := Some m, lastMove := [orig, dest]\<rparr>)
                      in Option.bind (markVariationComplete (nodes a2) m (completedLines a2))
                           (\<lambda>completed.
                              Some (snd (setTimeout StartNextLine 1000
                                           (a2\<lparr>completedLines := completed\<rparr>)))))
                 | None \<Rightarrow>
                     (let a1 = showFeedback Wrong (a\<lparr>game := g'\<rparr>)
                      in Some (updateGame (a1\<lparr>game := chess_undo E (game a1)\<rparr>))))))))"

definition handleMove :: "'g Chess \<Rightarrow> jsstring \<Rightarrow> jsstring \<Rightarrow> 'g App \<Rightarrow> 'g App option" where
  "handleMove E orig dest a =
     (if mode a = Edit then handleMove_edit E orig dest a else handleMove_drill E orig dest a)"

text \<open>
  \<^verbatim>\<open>
  const startNextLine = () => {
    if (!moveTree.value) return;
    const nextLine = findNextUnplayedLine(moveTree.value, completedLines.value);
    if (!nextLine || nextLine.length === 0) {
      alert("Congratulations! You completed all variations!");
      mode.value = "edit";
      return;
    }
    currentTargetLine.value = nextLine;
    currentTargetIndex.value = 0;
    game.value = new Chess();
    currentNode.value = null;
    lastMove.value = [];
    updateGame();
    setTimeout(() => { if (!isPlayerTurn()) { playOpponentMove(); } }, 300);
  };
  \<close>
\<close>

definition finish_drill :: "'g App \<Rightarrow> 'g App" where
  "finish_drill a = a\<lparr>alerts := Suc (alerts a), mode := Edit\<rparr>"

definition startNextLine :: "'g Chess \<Rightarrow> 'g App \<Rightarrow> 'g App option" where
  "startNextLine E a =
     (case moveTree a of
        None \<Rightarrow> Some a
      | Some r \<Rightarrow>
          Option.bind (findNextUnplayedLine (nodes a) r (completedLines a)) (\<lambda>nextLine.
            (case nextLine of
               None \<Rightarrow> Some (finish_drill a)
             | Some line \<Rightarrow>
                 if length line = 0 then Some (finish_drill a)
                 else Some (snd (setTimeout OpponentIfNotPlayerTurn 300
                        (updateGame (a\<lparr>currentTargetLine := line, currentTargetIndex := 0,
                                         game := new_Chess E, currentNode := None,
                                         lastMove := []\<rparr>)))))))"

section \<open>A small instance of the collaborator\<close>

text \<open>
  An instance of the parameter, to apply the theorems to. Its game is the text of the
  moves made, which is also its position. From any position it makes the five moves of
  the examples of the specification, given as text, and any move given by its squares.
\<close>

definition sample_squares :: "(jsstring \<times> jsstring \<times> jsstring) list" where
  "sample_squares =
     [(js ''e4'', js ''e2'', js ''e4''), (js ''d4'', js ''d2'', js ''d4''),
      (js ''d5'', js ''d7'', js ''d5''), (js ''e5'', js ''e7'', js ''e5''),
      (js ''Nf3'', js ''g1'', js ''f3'')]"

definition sample_move :: "jsstring \<Rightarrow> Move" where
  "sample_move t =
     (case map_of sample_squares t of
        Some (orig, dest) \<Rightarrow> \<lparr>move_san = t, lan = orig @ dest, move_from = orig, move_to = dest\<rparr>
      | None \<Rightarrow> \<lparr>move_san = t, lan = t, move_from = [], move_to = []\<rparr>)"

definition sample_chess :: "jsstring Chess" where
  "sample_chess =
     \<lparr>new_Chess = [],
      load_Chess = Some,
      chess_move = (\<lambda>g t. case map_of sample_squares t of
                             Some sq \<Rightarrow> Moved (g @ SPACE # t, sample_move t)
                           | None \<Rightarrow> Throws),
      chess_move_obj = (\<lambda>g orig dest p.
         Moved (g @ SPACE # orig @ dest,
                \<lparr>move_san = orig @ dest, lan = orig @ dest, move_from = orig, move_to = dest\<rparr>)),
      chess_fen = (\<lambda>g. g),
      chess_undo = (\<lambda>g. rev (drop 1 (dropWhile (\<lambda>c. c \<noteq> SPACE) (rev g)))),
      chess_turn = (\<lambda>g. if even (length (filter (\<lambda>c. c = SPACE) g)) then js ''w'' else js ''b'')\<rparr>"

definition sample_ids :: "nat \<Rightarrow> jsstring" where
  "sample_ids k = js ''id'' @ [of_nat k + 48]"

text \<open>A node that holds a move, as \<open>attach\<close> creates it, with its children so far.\<close>

definition move_node :: "jsstring \<Rightarrow> Move \<Rightarrow> jsstring \<Rightarrow> ref list \<Rightarrow> ref \<Rightarrow> bool \<Rightarrow> MoveNode" where
  "move_node ident mv position cs p isMain =
     \<lparr>node_id = ident, move = Some mv, san = move_san mv, fen = position, children = cs,
      parent = Some p, isMainLine = isMain\<rparr>"





section \<open>Notions for the statements\<close>

text \<open>
  In a store that \<open>buildTree\<close> has filled a child is created behind its parent, so its
  reference is the greater one: \<open>heap_ordered\<close>. The walk along the first children then
  ends; \<open>first_child_chain h a b\<close> holds when it leads from \<open>a\<close> to \<open>b\<close>.
\<close>

definition heap_ordered :: "store \<Rightarrow> bool" where
  "heap_ordered h \<longleftrightarrow>
     list_all (\<lambda>a. list_all (\<lambda>c. a < c \<and> c < length h) (children (h ! a))) [0..<length h]"

inductive first_child_chain :: "store \<Rightarrow> ref \<Rightarrow> ref \<Rightarrow> bool" for h :: store where
  chain_here: "first_child_chain h a a"
| chain_down: "a < length h \<Longrightarrow> children (h ! a) = c # cs \<Longrightarrow> first_child_chain h c b
               \<Longrightarrow> first_child_chain h a b"

code_pred first_child_chain .


text \<open>
  The tree of \<^verbatim>\<open>"1. e4 (1. d4 d5) e5"\<close> in the small instance, and a drill on its first line
  that waits for the first move of the user.
\<close>

definition sample_tree :: store where
  "sample_tree =
     [\<lparr>node_id = js ''root'', move = None, san = [], fen = [], children = [1, 2],
       parent = None, isMainLine = True\<rparr>,
      move_node (js ''id0'') (sample_move (js ''e4'')) (js '' e4'') [4] 0 True,
      move_node (js ''id1'') (sample_move (js ''d4'')) (js '' d4'') [3] 0 False,
      move_node (js ''id2'') (sample_move (js ''d5'')) (js '' d4 d5'') [] 2 False,
      move_node (js ''id3'') (sample_move (js ''e5'')) (js '' e4 e5'') [] 1 True]"

definition sample_app :: "jsstring App" where
  "sample_app =
     \<lparr>mode = Drill, playerColor = White, nodes = sample_tree, moveTree = Some 0,
      currentNode = None, completedLines = {}, currentTargetLine = [1, 4],
      currentTargetIndex = 0, game = [], gameVersion = 0, feedback = None,
      feedbackTimer = None, lastMove = [], timers = [], nextTimer = 1, alerts = 0\<rparr>"

text \<open>
  The shape of a store that holds one tree with the root at reference 0: the children of
  a node are distinct nodes created behind it that name it as their parent; the root
  alone has no parent and no move; every other node is a child of its parent and holds
  a move.
\<close>

definition node_ok :: "store \<Rightarrow> ref \<Rightarrow> bool" where
  "node_ok h a \<longleftrightarrow>
     list_all (\<lambda>c. a < c \<and> c < length h \<and> parent (h ! c) = Some a) (children (h ! a))
     \<and> distinct (children (h ! a))
     \<and> (case parent (h ! a) of
          None \<Rightarrow> a = 0 \<and> move (h ! a) = None
        | Some p \<Rightarrow> p < a \<and> a \<in> set (children (h ! p)) \<and> move (h ! a) \<noteq> None)"

definition tree_ok :: "store \<Rightarrow> bool" where
  "tree_ok h \<longleftrightarrow> h \<noteq> [] \<and> parent (h ! 0) = None \<and> list_all (node_ok h) [0..<length h]"

text \<open>
  \<open>move_applied E position mv position'\<close>: a game at \<open>position\<close> makes the move \<open>mv\<close> and
  is at \<open>position'\<close> then. \<open>fen_law\<close> is what the parser takes for granted when it opens a
  variation with \<^verbatim>\<open>new Chess(branchPoint.fen)\<close>: a game made from a position is at that
  position.
\<close>

definition move_applied :: "'g Chess \<Rightarrow> jsstring \<Rightarrow> Move \<Rightarrow> jsstring \<Rightarrow> bool" where
  "move_applied E position mv position' \<longleftrightarrow>
     (\<exists>g t g'. chess_fen E g = position \<and> chess_move E g t = Moved (g', mv)
                \<and> chess_fen E g' = position')"

definition fen_law :: "'g Chess \<Rightarrow> bool" where
  "fen_law E \<longleftrightarrow> (\<forall>g g'. load_Chess E (chess_fen E g) = Some g' \<longrightarrow> chess_fen E g' = chess_fen E g)"

text \<open>
  What \<open>attach\<close> does to the store, and what the loop of \<open>buildTree\<close> keeps true: the shape
  of the store, the identities (the root's, then those drawn in order), the positions
  (\<open>pos_ok\<close>), and that the live game is at the position of the current parent.
\<close>

definition grow :: "store \<Rightarrow> ref \<Rightarrow> MoveNode \<Rightarrow> store" where
  "grow h cur n = h[cur := (h ! cur)\<lparr>children := children (h ! cur) @ [length h]\<rparr>] @ [n]"

definition ids_ok :: "(nat \<Rightarrow> jsstring) \<Rightarrow> pstate \<Rightarrow> bool" where
  "ids_ok rnd st \<longleftrightarrow> map node_id (heap st) = js ''root'' # map rnd [0..<calls st]"

definition pos_ok :: "'g Chess \<Rightarrow> store \<Rightarrow> bool" where
  "pos_ok E h \<longleftrightarrow>
     fen (h ! 0) = chess_fen E (new_Chess E)
     \<and> (\<forall>a < length h. \<forall>p. parent (h ! a) = Some p \<longrightarrow>
           (\<exists>mv. move (h ! a) = Some mv \<and> san (h ! a) = move_san mv
                 \<and> move_applied E (fen (h ! p)) mv (fen (h ! a))))"

definition extends :: "store \<Rightarrow> store \<Rightarrow> bool" where
  "extends h h' \<longleftrightarrow> length h \<le> length h' \<and> (\<forall>a < length h. fen (h' ! a) = fen (h ! a))"

definition loop_inv :: "'g Chess \<Rightarrow> (nat \<Rightarrow> jsstring) \<Rightarrow> ref \<Rightarrow> 'g \<Rightarrow> pstate \<Rightarrow> bool" where
  "loop_inv E rnd cur g st \<longleftrightarrow>
     tree_ok (heap st) \<and> cur < length (heap st) \<and> ids_ok rnd st
     \<and> (fen_law E \<longrightarrow> pos_ok E (heap st) \<and> chess_fen E g = fen (heap st ! cur))"

definition loop_post :: "'g Chess \<Rightarrow> (nat \<Rightarrow> jsstring) \<Rightarrow> pstate \<Rightarrow> pstate \<Rightarrow> bool" where
  "loop_post E rnd st st' \<longleftrightarrow>
     tree_ok (heap st') \<and> ids_ok rnd st' \<and> extends (heap st) (heap st')
     \<and> (fen_law E \<longrightarrow> pos_ok E (heap st'))"


text \<open>
  The depth of a node, counted down from the root along the children; a path whose
  consecutive nodes are linked by their moves; a node without its identity.
\<close>

inductive at_depth :: "store \<Rightarrow> ref \<Rightarrow> nat \<Rightarrow> bool" for h :: store where
  depth_root: "at_depth h 0 0"
| depth_child: "at_depth h p d \<Longrightarrow> p < length h \<Longrightarrow> c \<in> set (children (h ! p))
                \<Longrightarrow> at_depth h c (Suc d)"

code_pred at_depth .



fun replayed :: "'g Chess \<Rightarrow> store \<Rightarrow> ref list \<Rightarrow> bool" where
  "replayed E h [] = True"
| "replayed E h [a] = True"
| "replayed E h (p # a # rest) =
     ((\<exists>mv. move (h ! a) = Some mv \<and> move_applied E (fen (h ! p)) mv (fen (h ! a)))
      \<and> replayed E h (a # rest))"

text \<open>
  The replay of a line: \<open>feed E g ts\<close> gives the moves \<open>ts\<close> one after the other to the game
  \<open>g\<close>, as \<^verbatim>\<open>game.move(token)\<close> does, and returns the game and the move of every step, or
  nothing when a move is refused. \<open>last_game\<close> is the game at the end, \<open>step_view\<close> the move
  and the position of a step, \<open>node_view\<close> those of a node. \<open>fen_determines\<close> says that
  the position of a game determines what a move does: two games at the same position make
  the same move of the same text, and are at the same position then. \<open>san_replays\<close> says
  that a game that makes a move of some text makes the same move of the notation of that
  move, \<^verbatim>\<open>move.san\<close>.
\<close>

definition fen_determines :: "'g Chess \<Rightarrow> bool" where
  "fen_determines E \<longleftrightarrow>
     (\<forall>g1 g2 t g1' mv.
        chess_fen E g1 = chess_fen E g2 \<and> chess_move E g1 t = Moved (g1', mv)
        \<longrightarrow> (\<exists>g2'. chess_move E g2 t = Moved (g2', mv) \<and> chess_fen E g2' = chess_fen E g1'))"

definition san_replays :: "'g Chess \<Rightarrow> bool" where
  "san_replays E \<longleftrightarrow>
     (\<forall>g t g' mv. chess_move E g t = Moved (g', mv)
        \<longrightarrow> chess_move E g (move_san mv) = Moved (g', mv))"

fun feed :: "'g Chess \<Rightarrow> 'g \<Rightarrow> jsstring list \<Rightarrow> ('g \<times> Move) list option" where
  "feed E g [] = Some []"
| "feed E g (t # ts) =
     (case chess_move E g t of
        Moved (g', mv) \<Rightarrow> map_option (\<lambda>steps. (g', mv) # steps) (feed E g' ts)
      | Null \<Rightarrow> None
      | Throws \<Rightarrow> None)"

definition last_game :: "'g \<Rightarrow> ('g \<times> Move) list \<Rightarrow> 'g" where
  "last_game g steps = (case steps of [] \<Rightarrow> g | s # ss \<Rightarrow> fst (last steps))"

definition step_view :: "'g Chess \<Rightarrow> 'g \<times> Move \<Rightarrow> Move option \<times> jsstring" where
  "step_view E s = (Some (snd s), chess_fen E (fst s))"

definition node_view :: "store \<Rightarrow> ref \<Rightarrow> Move option \<times> jsstring" where
  "node_view h n = (move (h ! n), fen (h ! n))"









section \<open>Properties of tokenize\<close>

lemma tokenize_loop_tokens_ok:
  assumes "\<forall>t \<in> set tokens. token_ok t"
      and "LPAREN \<notin> set current" and "RPAREN \<notin> set current" and "SPACE \<notin> set current"
  shows "\<forall>t \<in> set (tokenize_loop str tokens current). token_ok t"
  using assms
proof (induction str arbitrary: tokens current)
  case Nil
  then show ?case by (auto simp: token_ok_def move_text_def)
next
  case (Cons char rest)
  show ?case
  proof (cases "char = LPAREN \<or> char = RPAREN \<or> char = SPACE")
    case True
    let ?t1 = "if current \<noteq> [] then tokens @ [current] else tokens"
    let ?t2 = "if char \<noteq> SPACE then ?t1 @ [[char]] else ?t1"
    have t1: "\<forall>t \<in> set ?t1. token_ok t"
      using Cons.prems by (auto simp: token_ok_def move_text_def)
    have "\<forall>t \<in> set ?t2. token_ok t"
      using t1 True by (auto simp: token_ok_def)
    then have "\<forall>t \<in> set (tokenize_loop rest ?t2 []). token_ok t"
      by (rule Cons.IH) simp_all
    then show ?thesis using True by (simp add: Let_def)
  next
    case False
    have "\<forall>t \<in> set (tokenize_loop rest tokens (current @ [char])). token_ok t"
      using Cons.prems False by (intro Cons.IH) auto
    then show ?thesis using False by simp
  qed
qed

lemma tokenize_loop_concat:
  assumes "SPACE \<notin> set current"
  shows "concat (tokenize_loop str tokens current)
         = concat tokens @ current @ filter (\<lambda>c. c \<noteq> SPACE) str"
  using assms
proof (induction str arbitrary: tokens current)
  case Nil
  then show ?case by simp
next
  case (Cons char rest)
  show ?case
  proof (cases "char = LPAREN \<or> char = RPAREN \<or> char = SPACE")
    case True
    then show ?thesis by (auto simp: Cons.IH Let_def)
  next
    case False
    then show ?thesis using Cons.prems by (simp add: Cons.IH)
  qed
qed

text \<open>
  C10. For every input string, \<open>tokenize\<close> returns a sequence whose elements are each
  \<^verbatim>\<open>"("\<close>, \<^verbatim>\<open>")"\<close> or a non-empty token holding no space and no parenthesis, and the
  tokens concatenated in order are the input with its space characters removed.
  (\<open>tokenize\<close> is a total function: it is defined by structural recursion on the input.)
\<close>

theorem tokenize_tokens_and_concat:
  "(\<forall>t \<in> set (tokenize str).
      t = [LPAREN] \<or> t = [RPAREN]
      \<or> (t \<noteq> [] \<and> LPAREN \<notin> set t \<and> RPAREN \<notin> set t \<and> SPACE \<notin> set t))
   \<and> concat (tokenize str) = filter (\<lambda>c. c \<noteq> SPACE) str"
proof
  have "\<forall>t \<in> set (tokenize_loop str [] []). token_ok t"
    by (rule tokenize_loop_tokens_ok) simp_all
  then show "\<forall>t \<in> set (tokenize str).
      t = [LPAREN] \<or> t = [RPAREN]
      \<or> (t \<noteq> [] \<and> LPAREN \<notin> set t \<and> RPAREN \<notin> set t \<and> SPACE \<notin> set t)"
    by (simp add: tokenize_def token_ok_def move_text_def)
next
  show "concat (tokenize str) = filter (\<lambda>c. c \<noteq> SPACE) str"
    by (simp add: tokenize_def tokenize_loop_concat)
qed

theorem tokenize_tokens_and_concat_witness:
  "tokenize (js ''e4 (d4)e5 '') = [js ''e4'', js ''('', js ''d4'', js '')'', js ''e5'']
   \<and> list_all token_ok (tokenize (js ''e4 (d4)e5 ''))
   \<and> concat (tokenize (js ''e4 (d4)e5 '')) = js ''e4(d4)e5''"
proof -
  have ev: "tokenize (js ''e4 (d4)e5 '') = [js ''e4'', js ''('', js ''d4'', js '')'', js ''e5'']"
    by (simp add: tokenize_def js_def)
  have flt: "filter (\<lambda>c. c \<noteq> SPACE) (js ''e4 (d4)e5 '') = js ''e4(d4)e5''"
    by (simp add: js_def)
  have "list_all token_ok (tokenize (js ''e4 (d4)e5 ''))"
    using tokenize_tokens_and_concat [of "js ''e4 (d4)e5 ''"]
    unfolding list_all_iff token_ok_def move_text_def by blast
  moreover have "concat (tokenize (js ''e4 (d4)e5 '')) = js ''e4(d4)e5''"
    using tokenize_tokens_and_concat [of "js ''e4 (d4)e5 ''"] flt by simp
  ultimately show ?thesis using ev by simp
qed

section \<open>The examples of the specification\<close>

lemmas clean_defs = cleanPgn_def js_def isDigit_def isSpace_def trim_def
lemmas build_defs = buildTree_def buildTree_loop.simps matchParen.simps slice_def attach_def
  generateId_def deref_def root_node_def Let_def eval_nat_numeral

lemma tokens_variation_example:
  "tokenize (cleanPgn (js ''1. e4 (1. d4 d5) e5''))
   = [js ''e4'', js ''('', js ''d4'', js ''d5'', js '')'', js ''e5'']"
  by (simp add: clean_defs tokenize_def)

lemma clean_variation_example: "cleanPgn (js ''1. e4 (1. d4 d5) e5'') \<noteq> []"
  by (simp add: clean_defs)

lemma parse_variation_store:
  assumes "chess_move E (new_Chess E) (js ''e4'') = Moved (g1, e4)"
      and "load_Chess E (chess_fen E (new_Chess E)) = Some g0"
      and "chess_move E g0 (js ''d4'') = Moved (g2, d4)"
      and "chess_move E g2 (js ''d5'') = Moved (g3, d5)"
      and "chess_move E g1 (js ''e5'') = Moved (g4, e5)"
  shows "parsePgnToTree E rnd (js ''1. e4 (1. d4 d5) e5'') =
     Inr [(root_node E)\<lparr>children := [1, 2]\<rparr>,
          move_node (rnd 0) e4 (chess_fen E g1) [4] 0 True,
          move_node (rnd 1) d4 (chess_fen E g2) [3] 0 False,
          move_node (rnd 2) d5 (chess_fen E g3) [] 2 False,
          move_node (rnd 3) e5 (chess_fen E g4) [] 1 True]"
  unfolding parsePgnToTree_def tokens_variation_example
  using assms clean_variation_example
  by (simp add: build_defs js_def move_node_def)

lemma leaves_variation_store:
  "getLeafNodes [r\<lparr>children := [1, 2]\<rparr>, move_node i1 e4 f1 [4] 0 True,
                 move_node i2 d4 f2 [3] 0 False, move_node i3 d5 f3 [] 2 False,
                 move_node i4 e5 f4 [] 1 True] 0 = Some [4, 3]"
  by (simp add: getLeafNodes.simps deref_def move_node_def eval_nat_numeral)

text \<open>
  C1. If the moves e4, e5 (after e4), d4 (from the starting position again) and d5 (after
  d4) are legal, then \<open>parsePgnToTree\<close> on \<^verbatim>\<open>"1. e4 (1. d4 d5) e5"\<close> returns a tree of
  five nodes: the children of the root are e4 and d4, of which only e4 is on the main
  line; e4 has the one child e5, on the main line; d4, whose parent is the root like
  that of e4, has the one child d5; and \<open>getLeafNodes\<close> on the root returns the two
  leaves e5 and d5.
\<close>

theorem parse_variation_example:
  assumes "chess_move E (new_Chess E) (js ''e4'') = Moved (g1, e4)"
      and "load_Chess E (chess_fen E (new_Chess E)) = Some g0"
      and "chess_move E g0 (js ''d4'') = Moved (g2, d4)"
      and "chess_move E g2 (js ''d5'') = Moved (g3, d5)"
      and "chess_move E g1 (js ''e5'') = Moved (g4, e5)"
  shows "\<exists>h. parsePgnToTree E rnd (js ''1. e4 (1. d4 d5) e5'') = Inr h \<and> length h = 5
     \<and> parent (h ! 0) = None \<and> move (h ! 0) = None
     \<and> children (h ! 0) = [1, 2] \<and> filter (\<lambda>c. isMainLine (h ! c)) (children (h ! 0)) = [1]
     \<and> move (h ! 1) = Some e4 \<and> parent (h ! 1) = Some 0 \<and> children (h ! 1) = [4]
     \<and> move (h ! 4) = Some e5 \<and> parent (h ! 4) = Some 1 \<and> isMainLine (h ! 4)
     \<and> children (h ! 4) = []
     \<and> move (h ! 2) = Some d4 \<and> parent (h ! 2) = Some 0 \<and> \<not> isMainLine (h ! 2)
     \<and> children (h ! 2) = [3]
     \<and> move (h ! 3) = Some d5 \<and> parent (h ! 3) = Some 2 \<and> children (h ! 3) = []
     \<and> getLeafNodes h 0 = Some [4, 3]"
proof -
  let ?h = "[(root_node E)\<lparr>children := [1, 2]\<rparr>,
          move_node (rnd 0) e4 (chess_fen E g1) [4] 0 True,
          move_node (rnd 1) d4 (chess_fen E g2) [3] 0 False,
          move_node (rnd 2) d5 (chess_fen E g3) [] 2 False,
          move_node (rnd 3) e5 (chess_fen E g4) [] 1 True]"
  have p: "parsePgnToTree E rnd (js ''1. e4 (1. d4 d5) e5'') = Inr ?h"
    by (rule parse_variation_store [OF assms])
  have l: "getLeafNodes ?h 0 = Some [4, 3]"
    by (rule leaves_variation_store)
  show ?thesis
    by (rule exI [of _ ?h], unfold p l)
       (simp add: move_node_def root_node_def eval_nat_numeral)
qed

theorem parse_variation_example_witness:
  "\<exists>h. parsePgnToTree sample_chess sample_ids (js ''1. e4 (1. d4 d5) e5'') = Inr h \<and> length h = 5
     \<and> parent (h ! 0) = None \<and> move (h ! 0) = None
     \<and> children (h ! 0) = [1, 2] \<and> filter (\<lambda>c. isMainLine (h ! c)) (children (h ! 0)) = [1]
     \<and> move (h ! 1) = Some (sample_move (js ''e4'')) \<and> parent (h ! 1) = Some 0
     \<and> children (h ! 1) = [4]
     \<and> move (h ! 4) = Some (sample_move (js ''e5'')) \<and> parent (h ! 4) = Some 1
     \<and> isMainLine (h ! 4) \<and> children (h ! 4) = []
     \<and> move (h ! 2) = Some (sample_move (js ''d4'')) \<and> parent (h ! 2) = Some 0
     \<and> \<not> isMainLine (h ! 2) \<and> children (h ! 2) = [3]
     \<and> move (h ! 3) = Some (sample_move (js ''d5'')) \<and> parent (h ! 3) = Some 2
     \<and> children (h ! 3) = []
     \<and> getLeafNodes h 0 = Some [4, 3]"
proof -
  have 1: "chess_move sample_chess (new_Chess sample_chess) (js ''e4'')
           = Moved (js '' e4'', sample_move (js ''e4''))"
    by (simp add: sample_chess_def sample_squares_def js_def)
  have 2: "load_Chess sample_chess (chess_fen sample_chess (new_Chess sample_chess)) = Some []"
    by (simp add: sample_chess_def)
  have 3: "chess_move sample_chess [] (js ''d4'') = Moved (js '' d4'', sample_move (js ''d4''))"
    by (simp add: sample_chess_def sample_squares_def js_def)
  have 4: "chess_move sample_chess (js '' d4'') (js ''d5'')
           = Moved (js '' d4 d5'', sample_move (js ''d5''))"
    by (simp add: sample_chess_def sample_squares_def js_def)
  have 5: "chess_move sample_chess (js '' e4'') (js ''e5'')
           = Moved (js '' e4 e5'', sample_move (js ''e5''))"
    by (simp add: sample_chess_def sample_squares_def js_def)
  show ?thesis
    by (rule parse_variation_example [OF 1 2 3 4 5])
qed

lemma tokens_unbalanced_example:
  "tokenize (cleanPgn (js ''1. e4 (1. d4'')) = [js ''e4'', js ''('', js ''d4'']"
  by (simp add: clean_defs tokenize_def)

lemma clean_unbalanced_example: "cleanPgn (js ''1. e4 (1. d4'') \<noteq> []"
  by (simp add: clean_defs)

lemma scan_unbalanced_example:
  "matchParen [js ''e4'', js ''('', js ''d4''] 1 2 = 3
   \<and> slice [js ''e4'', js ''('', js ''d4''] 2 (3 - 1) = []"
  by (simp add: matchParen.simps slice_def js_def eval_nat_numeral)

text \<open>
  C3. On \<^verbatim>\<open>"1. e4 (1. d4"\<close> the parser does not throw, and the search for the closing
  parenthesis runs to the end of the input; but the variation body
  \<^verbatim>\<open>tokens.slice(i + 1, j - 1)\<close> leaves out the last token, which here is d4 and not a
  parenthesis. The tree returned is root \<rightarrow> e4 alone: no node for d4, legal or not.
\<close>

theorem parse_unbalanced_example:
  assumes "chess_move E (new_Chess E) (js ''e4'') = Moved (g1, e4)"
      and "load_Chess E (chess_fen E (new_Chess E)) = Some g0"
      and "chess_move E g0 (js ''d4'') = Moved (g2, d4)"
  shows "parsePgnToTree E rnd (js ''1. e4 (1. d4'') =
           Inr [\<lparr>node_id = js ''root'', move = None, san = [], fen = chess_fen E (new_Chess E),
                 children = [1], parent = None, isMainLine = True\<rparr>,
                \<lparr>node_id = rnd 0, move = Some e4, san = move_san e4, fen = chess_fen E g1,
                 children = [], parent = Some 0, isMainLine = True\<rparr>]"
  unfolding parsePgnToTree_def tokens_unbalanced_example
  using assms clean_unbalanced_example
  by (simp add: build_defs js_def)

theorem parse_unbalanced_example_witness:
  "parsePgnToTree sample_chess sample_ids (js ''1. e4 (1. d4'') =
           Inr [\<lparr>node_id = js ''root'', move = None, san = [], fen = [],
                 children = [1], parent = None, isMainLine = True\<rparr>,
                \<lparr>node_id = js ''id0'', move = Some (sample_move (js ''e4'')), san = js ''e4'',
                 fen = js '' e4'', children = [], parent = Some 0, isMainLine = True\<rparr>]"
proof -
  have 1: "chess_move sample_chess (new_Chess sample_chess) (js ''e4'')
           = Moved (js '' e4'', sample_move (js ''e4''))"
    by (simp add: sample_chess_def sample_squares_def js_def)
  have 2: "load_Chess sample_chess (chess_fen sample_chess (new_Chess sample_chess)) = Some []"
    by (simp add: sample_chess_def)
  have 3: "chess_move sample_chess [] (js ''d4'') = Moved (js '' d4'', sample_move (js ''d4''))"
    by (simp add: sample_chess_def sample_squares_def js_def)
  show ?thesis
    using parse_unbalanced_example [OF 1 2 3, of sample_ids]
    by (simp add: sample_chess_def sample_ids_def sample_move_def sample_squares_def js_def)
qed

lemma tokens_malformed_example:
  "tokenize (cleanPgn (js ''1. e4 e5 2. Zz9 Nf3'')) = [js ''e4'', js ''e5'', js ''Zz9'', js ''Nf3'']"
  by (simp add: clean_defs tokenize_def)

lemma clean_malformed_example: "cleanPgn (js ''1. e4 e5 2. Zz9 Nf3'') \<noteq> []"
  by (simp add: clean_defs)

lemma illegal_token_step:
  assumes "i < length tokens" and "tokens ! i \<noteq> [LPAREN]" and "tokens ! i \<noteq> [RPAREN]"
      and "chess_move E g (tokens ! i) \<in> {Null, Throws}"
  shows "buildTree_loop E rnd tokens isMain i cur g st
         = buildTree_loop E rnd tokens isMain (Suc i) cur g st"
  using assms by (subst buildTree_loop.simps) (auto simp: Let_def)

lemma parse_malformed_store:
  assumes "chess_move E (new_Chess E) (js ''e4'') = Moved (g1, e4)"
      and "chess_move E g1 (js ''e5'') = Moved (g2, e5)"
      and "chess_move E g2 (js ''Zz9'') \<in> {Null, Throws}"
      and "chess_move E g2 (js ''Nf3'') = Moved (g3, nf3)"
  shows "parsePgnToTree E rnd (js ''1. e4 e5 2. Zz9 Nf3'') =
     Inr [(root_node E)\<lparr>children := [1]\<rparr>,
          move_node (rnd 0) e4 (chess_fen E g1) [2] 0 True,
          move_node (rnd 1) e5 (chess_fen E g2) [3] 1 True,
          move_node (rnd 2) nf3 (chess_fen E g3) [] 2 True]"
  unfolding parsePgnToTree_def tokens_malformed_example
  using assms clean_malformed_example
  by (auto simp add: build_defs js_def move_node_def)

text \<open>
  C4. A token that is no parenthesis and on which \<^verbatim>\<open>game.move\<close> returns \<^verbatim>\<open>null\<close> or throws
  is passed over: the loop goes on at the next token with the state, the current parent
  and the game unchanged. On \<^verbatim>\<open>"1. e4 e5 2. Zz9 Nf3"\<close>, when e4, e5 and Nf3 are legal in
  turn and Zz9 is not, the tree is the chain root \<rightarrow> e4 \<rightarrow> e5 \<rightarrow> Nf3.
\<close>

theorem malformed_token_discarded:
  "(i < length tokens \<and> tokens ! i \<noteq> [LPAREN] \<and> tokens ! i \<noteq> [RPAREN]
      \<and> chess_move E g (tokens ! i) \<in> {Null, Throws}
    \<longrightarrow> buildTree_loop E rnd tokens isMain i cur g st
        = buildTree_loop E rnd tokens isMain (Suc i) cur g st)
   \<and> (chess_move E (new_Chess E) (js ''e4'') = Moved (g1, e4)
      \<and> chess_move E g1 (js ''e5'') = Moved (g2, e5)
      \<and> chess_move E g2 (js ''Zz9'') \<in> {Null, Throws}
      \<and> chess_move E g2 (js ''Nf3'') = Moved (g3, nf3)
    \<longrightarrow> (\<exists>h. parsePgnToTree E rnd (js ''1. e4 e5 2. Zz9 Nf3'') = Inr h \<and> length h = 4
          \<and> children (h ! 0) = [1]
          \<and> move (h ! 1) = Some e4 \<and> parent (h ! 1) = Some 0 \<and> children (h ! 1) = [2]
          \<and> move (h ! 2) = Some e5 \<and> parent (h ! 2) = Some 1 \<and> children (h ! 2) = [3]
          \<and> move (h ! 3) = Some nf3 \<and> parent (h ! 3) = Some 2 \<and> children (h ! 3) = []))"
proof (intro conjI impI)
  assume "i < length tokens \<and> tokens ! i \<noteq> [LPAREN] \<and> tokens ! i \<noteq> [RPAREN]
      \<and> chess_move E g (tokens ! i) \<in> {Null, Throws}"
  then show "buildTree_loop E rnd tokens isMain i cur g st
        = buildTree_loop E rnd tokens isMain (Suc i) cur g st"
    by (intro illegal_token_step) simp_all
next
  let ?h = "[(root_node E)\<lparr>children := [1]\<rparr>,
          move_node (rnd 0) e4 (chess_fen E g1) [2] 0 True,
          move_node (rnd 1) e5 (chess_fen E g2) [3] 1 True,
          move_node (rnd 2) nf3 (chess_fen E g3) [] 2 True]"
  assume "chess_move E (new_Chess E) (js ''e4'') = Moved (g1, e4)
      \<and> chess_move E g1 (js ''e5'') = Moved (g2, e5)
      \<and> chess_move E g2 (js ''Zz9'') \<in> {Null, Throws}
      \<and> chess_move E g2 (js ''Nf3'') = Moved (g3, nf3)"
  then have p: "parsePgnToTree E rnd (js ''1. e4 e5 2. Zz9 Nf3'') = Inr ?h"
    by (intro parse_malformed_store) simp_all
  show "\<exists>h. parsePgnToTree E rnd (js ''1. e4 e5 2. Zz9 Nf3'') = Inr h \<and> length h = 4
          \<and> children (h ! 0) = [1]
          \<and> move (h ! 1) = Some e4 \<and> parent (h ! 1) = Some 0 \<and> children (h ! 1) = [2]
          \<and> move (h ! 2) = Some e5 \<and> parent (h ! 2) = Some 1 \<and> children (h ! 2) = [3]
          \<and> move (h ! 3) = Some nf3 \<and> parent (h ! 3) = Some 2 \<and> children (h ! 3) = []"
    by (rule exI [of _ ?h], unfold p)
       (simp add: move_node_def root_node_def eval_nat_numeral)
qed

theorem malformed_token_discarded_witness:
  "buildTree_loop sample_chess sample_ids [js ''Zz9'', js ''Nf3''] True 0 0 []
       \<lparr>heap = [root_node sample_chess], calls = 0\<rparr>
   = buildTree_loop sample_chess sample_ids [js ''Zz9'', js ''Nf3''] True (Suc 0) 0 []
       \<lparr>heap = [root_node sample_chess], calls = 0\<rparr>
   \<and> (\<exists>h. parsePgnToTree sample_chess sample_ids (js ''1. e4 e5 2. Zz9 Nf3'') = Inr h
          \<and> length h = 4 \<and> children (h ! 0) = [1]
          \<and> move (h ! 1) = Some (sample_move (js ''e4'')) \<and> parent (h ! 1) = Some 0
          \<and> children (h ! 1) = [2]
          \<and> move (h ! 2) = Some (sample_move (js ''e5'')) \<and> parent (h ! 2) = Some 1
          \<and> children (h ! 2) = [3]
          \<and> move (h ! 3) = Some (sample_move (js ''Nf3'')) \<and> parent (h ! 3) = Some 2
          \<and> children (h ! 3) = [])"
proof -
  have 0: "(0::nat) < length [js ''Zz9'', js ''Nf3''] \<and> [js ''Zz9'', js ''Nf3''] ! 0 \<noteq> [LPAREN]
      \<and> [js ''Zz9'', js ''Nf3''] ! 0 \<noteq> [RPAREN]
      \<and> chess_move sample_chess [] ([js ''Zz9'', js ''Nf3''] ! 0) \<in> {Null, Throws}"
    by (simp add: sample_chess_def sample_squares_def js_def)
  have 1: "chess_move sample_chess (new_Chess sample_chess) (js ''e4'')
             = Moved (js '' e4'', sample_move (js ''e4''))
      \<and> chess_move sample_chess (js '' e4'') (js ''e5'')
             = Moved (js '' e4 e5'', sample_move (js ''e5''))
      \<and> chess_move sample_chess (js '' e4 e5'') (js ''Zz9'') \<in> {Null, Throws}
      \<and> chess_move sample_chess (js '' e4 e5'') (js ''Nf3'')
             = Moved (js '' e4 e5 Nf3'', sample_move (js ''Nf3''))"
    by (simp add: sample_chess_def sample_squares_def js_def)
  show ?thesis
    using malformed_token_discarded [where i = 0 and tokens = "[js ''Zz9'', js ''Nf3'']"
        and E = sample_chess and g = "[]" and rnd = sample_ids and isMain = True and cur = 0
        and st = "\<lparr>heap = [root_node sample_chess], calls = 0\<rparr>"
        and ?g1.0 = "js '' e4''" and ?e4.0 = "sample_move (js ''e4'')"
        and ?g2.0 = "js '' e4 e5''" and ?e5.0 = "sample_move (js ''e5'')"
        and ?g3.0 = "js '' e4 e5 Nf3''" and ?nf3.0 = "sample_move (js ''Nf3'')"] 0 1
    by blast
qed

section \<open>updateStudy\<close>




section \<open>The drill\<close>

lemma heap_ordered_iff:
  "heap_ordered h \<longleftrightarrow> (\<forall>a < length h. \<forall>c \<in> set (children (h ! a)). a < c \<and> c < length h)"
  unfolding heap_ordered_def list_all_iff by (simp add: Ball_def)

lemma heap_orderedD:
  "heap_ordered h \<Longrightarrow> a < length h \<Longrightarrow> c \<in> set (children (h ! a)) \<Longrightarrow> a < c \<and> c < length h"
  unfolding heap_ordered_iff by blast

lemma find_lan_none:
  "\<forall>n \<in> set ns. n < length h \<and> \<not> same_lan (h ! n) mv \<Longrightarrow> find_lan h mv ns = Some None"
  by (induction ns) (auto simp: deref_def)

lemma find_lan_first:
  "\<forall>n \<in> set pre. n < length h \<and> \<not> same_lan (h ! n) mv \<Longrightarrow> m < length h
   \<Longrightarrow> same_lan (h ! m) mv \<Longrightarrow> find_lan h mv (pre @ m # post) = Some (Some m)"
  by (induction pre) (auto simp: deref_def)

lemma target_matches_False:
  assumes "currentTargetIndex a < length (currentTargetLine a)
           \<Longrightarrow> currentTargetLine a ! currentTargetIndex a < length (nodes a)
               \<and> \<not> same_lan (nodes a ! (currentTargetLine a ! currentTargetIndex a)) mv"
  shows "target_matches (nodes a) (currentTargetLine a) (currentTargetIndex a) mv = Some False"
  using assms by (auto simp: target_matches_def deref_def)

lemma showFeedback_fields:
  "feedback (showFeedback t a) = Some t"
  "mode (showFeedback t a) = mode a"
  "game (showFeedback t a) = game a"
  "nodes (showFeedback t a) = nodes a"
  "moveTree (showFeedback t a) = moveTree a"
  "currentNode (showFeedback t a) = currentNode a"
  "completedLines (showFeedback t a) = completedLines a"
  "currentTargetLine (showFeedback t a) = currentTargetLine a"
  "currentTargetIndex (showFeedback t a) = currentTargetIndex a"
  "playerColor (showFeedback t a) = playerColor a"
  "set (timers (showFeedback t a)) \<subseteq> insert (nextTimer a, ClearFeedback, 800) (set (timers a))"
  by (auto simp: showFeedback_def setTimeout_def clearTimeout_def Let_def split: option.splits)

lemma chain_leaf_unique:
  "first_child_chain h a l \<Longrightarrow> children (h ! l) = [] \<Longrightarrow> first_child_chain h a l'
   \<Longrightarrow> children (h ! l') = [] \<Longrightarrow> l' = l"
proof (induction arbitrary: l' rule: first_child_chain.induct)
  case (chain_here a)
  from chain_here.prems(2) chain_here.prems(1,3) show ?case
    by (cases rule: first_child_chain.cases) auto
next
  case (chain_down a c cs b)
  from chain_down.prems(2) show ?case
  proof (cases rule: first_child_chain.cases)
    case chain_here
    then show ?thesis using chain_down.hyps(2) chain_down.prems(3) by simp
  next
    case (chain_down c' cs')
    then have "c' = c" using chain_down.hyps(2) by simp
    then have "first_child_chain h c l'" using local.chain_down(3) by simp
    then show ?thesis
      using chain_down.prems(3,1) by (rule chain_down.IH [rotated])
  qed
qed

lemma markVariationComplete_leaf:
  assumes "heap_ordered h"
  shows "a < length h \<Longrightarrow>
         \<exists>leaf. first_child_chain h a leaf \<and> children (h ! leaf) = [] \<and> leaf < length h
           \<and> (\<forall>C. markVariationComplete h a C = Some (insert (node_id (h ! leaf)) C))"
proof (induction "length h - a" arbitrary: a rule: less_induct)
  case less
  show ?case
  proof (cases "children (h ! a)")
    case Nil
    then have "\<forall>C. markVariationComplete h a C = Some (insert (node_id (h ! a)) C)"
      using less.prems by (subst markVariationComplete.simps) (simp add: deref_def)
    then show ?thesis using Nil less.prems by (blast intro: chain_here)
  next
    case (Cons c cs)
    then have c: "a < c \<and> c < length h"
      using heap_orderedD [OF assms less.prems, of c] by simp
    then have "length h - c < length h - a" by arith
    from less.hyps [OF this] c obtain leaf where
      leaf: "first_child_chain h c leaf" "children (h ! leaf) = []" "leaf < length h"
        "\<forall>C. markVariationComplete h c C = Some (insert (node_id (h ! leaf)) C)"
      by blast
    have "\<forall>C. markVariationComplete h a C = Some (insert (node_id (h ! leaf)) C)"
      using less.prems Cons leaf(4)
      by (subst markVariationComplete.simps) (simp add: deref_def)
    moreover have "first_child_chain h a leaf"
      using less.prems Cons leaf(1) by (rule chain_down)
    ultimately show ?thesis using leaf(2,3) by blast
  qed
qed

text \<open>
  C7. In drill mode, when \<^verbatim>\<open>game.move\<close> makes the attempted move and its long notation is
  that of neither the target node nor any child of the current tree position,
  \<open>handleMove\<close> returns with the feedback "wrong". The game is then the one that
  \<^verbatim>\<open>undo()\<close> leaves, the game before the attempt when \<^verbatim>\<open>undo()\<close> takes back the move
  just made. The target line, the index into it, the completed leaves and the current
  node are unchanged, the mode is still the drill, and the one timeout added is the one
  that clears the feedback: none plays a move or starts a line.
\<close>

theorem drill_wrong_move:
  assumes "mode a = Drill"
      and "chess_move_obj E (game a) orig dest (js ''q'') = Moved (g', mv)"
      and "chess_undo E g' = game a"
      and "currentTargetIndex a < length (currentTargetLine a)
           \<Longrightarrow> currentTargetLine a ! currentTargetIndex a < length (nodes a)
               \<and> \<not> same_lan (nodes a ! (currentTargetLine a ! currentTargetIndex a)) mv"
      and "getCurrentExpectedMoves a = Some expectedMoves"
      and "\<forall>n \<in> set expectedMoves. n < length (nodes a) \<and> \<not> same_lan (nodes a ! n) mv"
  shows "\<exists>a'. handleMove E orig dest a = Some a'
     \<and> feedback a' = Some Wrong
     \<and> game a' = game a
     \<and> currentTargetIndex a' = currentTargetIndex a
     \<and> currentTargetLine a' = currentTargetLine a
     \<and> completedLines a' = completedLines a
     \<and> currentNode a' = currentNode a
     \<and> mode a' = Drill
     \<and> set (timers a') \<subseteq> insert (nextTimer a, ClearFeedback, 800) (set (timers a))"
proof -
  let ?a1 = "showFeedback Wrong (a\<lparr>game := g'\<rparr>)"
  let ?a' = "updateGame (?a1\<lparr>game := chess_undo E (game ?a1)\<rparr>)"
  have "handleMove E orig dest a = Some ?a'"
    using assms(1,2,5) target_matches_False [OF assms(4)] find_lan_none [OF assms(6)]
    by (simp add: handleMove_def handleMove_drill_def Let_def)
  moreover have "set (timers ?a') \<subseteq> insert (nextTimer a, ClearFeedback, 800) (set (timers a))"
    using showFeedback_fields(11) [of Wrong "a\<lparr>game := g'\<rparr>"] by (simp add: updateGame_def)
  ultimately show ?thesis
    using assms(1,3) by (simp add: updateGame_def showFeedback_fields)
qed

text \<open>
  C8. In drill mode, when the long notation of the attempted move is not that of the
  target node and \<open>m\<close> is the first child of the current tree position that has it,
  \<open>handleMove\<close> returns with the feedback "variation" and the current node \<open>m\<close>; there is
  exactly one leaf at the end of the chain of first children from \<open>m\<close>, its identity
  and nothing else is added to the completed leaves, and behind the timeout of the
  feedback \<^verbatim>\<open>startNextLine\<close> is set to run after 1000 ms.
\<close>

theorem drill_variation_move:
  assumes "mode a = Drill"
      and "chess_move_obj E (game a) orig dest (js ''q'') = Moved (g', mv)"
      and "currentTargetIndex a < length (currentTargetLine a)
           \<Longrightarrow> currentTargetLine a ! currentTargetIndex a < length (nodes a)
               \<and> \<not> same_lan (nodes a ! (currentTargetLine a ! currentTargetIndex a)) mv"
      and "getCurrentExpectedMoves a = Some (pre @ m # post)"
      and "\<forall>n \<in> set pre. n < length (nodes a) \<and> \<not> same_lan (nodes a ! n) mv"
      and "m < length (nodes a)" and "same_lan (nodes a ! m) mv"
      and "heap_ordered (nodes a)"
  shows "\<exists>a' leaf. handleMove E orig dest a = Some a'
     \<and> feedback a' = Some Variation
     \<and> (\<forall>l. first_child_chain (nodes a) m l \<and> children (nodes a ! l) = [] \<longleftrightarrow> l = leaf)
     \<and> completedLines a' = insert (node_id (nodes a ! leaf)) (completedLines a)
     \<and> currentNode a' = Some m
     \<and> game a' = g'
     \<and> timers a' = timers (showFeedback Variation a) @ [(Suc (nextTimer a), StartNextLine, 1000)]"
proof -
  from markVariationComplete_leaf [OF assms(8,6)] obtain leaf where
    leaf: "first_child_chain (nodes a) m leaf" "children (nodes a ! leaf) = []"
      "\<forall>C. markVariationComplete (nodes a) m C = Some (insert (node_id (nodes a ! leaf)) C)"
    by blast
  let ?a1 = "showFeedback Variation (a\<lparr>game := g'\<rparr>)"
  let ?a2 = "updateGame (?a1\<lparr>currentNode := Some m, lastMove := [orig, dest]\<rparr>)"
  let ?a' = "snd (setTimeout StartNextLine 1000
               (?a2\<lparr>completedLines := insert (node_id (nodes a ! leaf)) (completedLines a)\<rparr>))"
  have "handleMove E orig dest a = Some ?a'"
    using assms(1,2,4) target_matches_False [OF assms(3)] find_lan_first [OF assms(5,6,7)] leaf(3)
    by (simp add: handleMove_def handleMove_drill_def Let_def updateGame_def showFeedback_fields)
  moreover have "\<forall>l. first_child_chain (nodes a) m l \<and> children (nodes a ! l) = [] \<longleftrightarrow> l = leaf"
    using leaf(1,2) chain_leaf_unique by blast
  moreover have "timers ?a' = timers (showFeedback Variation a) @ [(Suc (nextTimer a), StartNextLine, 1000)]"
    by (simp add: setTimeout_def updateGame_def showFeedback_def clearTimeout_def Let_def
          split: option.splits)
  ultimately show ?thesis
    by (intro exI [of _ ?a'] exI [of _ leaf])
       (simp add: setTimeout_def updateGame_def showFeedback_fields)
qed


lemmas sample_defs = sample_app_def sample_tree_def sample_chess_def sample_move_def
  sample_squares_def move_node_def js_def

lemma sample_tree_nth:
  "lan (the (move (sample_tree ! 1))) = js ''e2e4''"
  "lan (the (move (sample_tree ! 2))) = js ''d2d4''"
  "children (sample_tree ! 0) = [1, 2]"
  "children (sample_tree ! 2) = [3]"
  "children (sample_tree ! 3) = []"
  "node_id (sample_tree ! 3) = js ''id2''"
  "length sample_tree = 5"
  by (simp_all add: sample_defs)

theorem drill_wrong_move_witness:
  "\<exists>a'. handleMove sample_chess (js ''c2'') (js ''c4'') sample_app = Some a'
     \<and> feedback a' = Some Wrong
     \<and> game a' = []
     \<and> currentTargetIndex a' = 0
     \<and> currentTargetLine a' = [1, 4]
     \<and> completedLines a' = {}
     \<and> currentNode a' = None
     \<and> mode a' = Drill
     \<and> set (timers a') \<subseteq> {(1, ClearFeedback, 800)}"
proof -
  let ?mv = "\<lparr>move_san = js ''c2c4'', lan = js ''c2c4'', move_from = js ''c2'', move_to = js ''c4''\<rparr>"
  have 1: "mode sample_app = Drill" by (simp add: sample_app_def)
  have 2: "chess_move_obj sample_chess (game sample_app) (js ''c2'') (js ''c4'') (js ''q'')
           = Moved (js '' c2c4'', ?mv)"
    by (simp add: sample_app_def sample_chess_def js_def)
  have 3: "chess_undo sample_chess (js '' c2c4'') = game sample_app"
    by (simp add: sample_app_def sample_chess_def js_def)
  have 4: "currentTargetLine sample_app ! currentTargetIndex sample_app < length (nodes sample_app)
      \<and> \<not> same_lan (nodes sample_app ! (currentTargetLine sample_app ! currentTargetIndex sample_app)) ?mv"
    by (simp add: sample_defs same_lan_def)
  have 5: "getCurrentExpectedMoves sample_app = Some [1, 2]"
    by (simp add: getCurrentExpectedMoves_def deref_def sample_app_def sample_tree_def)
  have 6: "\<forall>n \<in> set [1, 2]. n < length (nodes sample_app) \<and> \<not> same_lan (nodes sample_app ! n) ?mv"
    by (simp add: sample_defs same_lan_def)
  have "\<exists>a'. handleMove sample_chess (js ''c2'') (js ''c4'') sample_app = Some a'
     \<and> feedback a' = Some Wrong
     \<and> game a' = game sample_app
     \<and> currentTargetIndex a' = currentTargetIndex sample_app
     \<and> currentTargetLine a' = currentTargetLine sample_app
     \<and> completedLines a' = completedLines sample_app
     \<and> currentNode a' = currentNode sample_app
     \<and> mode a' = Drill
     \<and> set (timers a') \<subseteq> insert (nextTimer sample_app, ClearFeedback, 800) (set (timers sample_app))"
    by (rule drill_wrong_move [OF 1 2 3 4 5 6])
  then show ?thesis by (simp add: sample_app_def)
qed

theorem drill_variation_move_witness:
  "\<exists>a'. handleMove sample_chess (js ''d2'') (js ''d4'') sample_app = Some a'
     \<and> feedback a' = Some Variation
     \<and> completedLines a' = {js ''id2''}
     \<and> currentNode a' = Some 2
     \<and> game a' = js '' d2d4''
     \<and> timers a' = [(1, ClearFeedback, 800), (2, StartNextLine, 1000)]"
proof -
  let ?mv = "\<lparr>move_san = js ''d2d4'', lan = js ''d2d4'', move_from = js ''d2'', move_to = js ''d4''\<rparr>"
  have 1: "mode sample_app = Drill" by (simp add: sample_app_def)
  have 2: "chess_move_obj sample_chess (game sample_app) (js ''d2'') (js ''d4'') (js ''q'')
           = Moved (js '' d2d4'', ?mv)"
    by (simp add: sample_app_def sample_chess_def js_def)
  have 3: "currentTargetLine sample_app ! currentTargetIndex sample_app < length (nodes sample_app)
      \<and> \<not> same_lan (nodes sample_app ! (currentTargetLine sample_app ! currentTargetIndex sample_app)) ?mv"
    by (simp add: sample_defs same_lan_def)
  have 4: "getCurrentExpectedMoves sample_app = Some ([1] @ 2 # [])"
    by (simp add: getCurrentExpectedMoves_def deref_def sample_app_def sample_tree_def)
  have 5: "\<forall>n \<in> set [1]. n < length (nodes sample_app) \<and> \<not> same_lan (nodes sample_app ! n) ?mv"
    by (simp add: sample_defs same_lan_def)
  have 6: "2 < length (nodes sample_app)" by (simp add: sample_app_def sample_tree_def)
  have 7: "same_lan (nodes sample_app ! 2) ?mv" by (simp add: sample_defs same_lan_def)
  have 8: "heap_ordered (nodes sample_app)"
    by (simp add: heap_ordered_def sample_app_def sample_tree_def move_node_def)
  have n: "nodes sample_app = sample_tree" by (simp add: sample_app_def)
  have chain: "first_child_chain sample_tree 2 3 \<and> children (sample_tree ! 3) = []"
    by (auto intro!: chain_down [of 2 _ 3 "[]"] chain_here simp: sample_tree_nth)
  from drill_variation_move [OF 1 2 3 4 5 6 7 8] obtain a' leaf where
    a': "handleMove sample_chess (js ''d2'') (js ''d4'') sample_app = Some a'"
      "feedback a' = Some Variation"
      "\<forall>l. first_child_chain (nodes sample_app) 2 l \<and> children (nodes sample_app ! l) = [] \<longleftrightarrow> l = leaf"
      "completedLines a' = insert (node_id (nodes sample_app ! leaf)) (completedLines sample_app)"
      "currentNode a' = Some 2" "game a' = js '' d2d4''"
      "timers a' = timers (showFeedback Variation sample_app)
                   @ [(Suc (nextTimer sample_app), StartNextLine, 1000)]"
    by blast
  have "leaf = 3" using spec [OF a'(3) [unfolded n], of 3] chain by simp
  then have "completedLines a' = {js ''id2''}"
    using a'(4) by (simp add: n sample_tree_nth) (simp add: sample_app_def)
  moreover have "timers a' = [(1, ClearFeedback, 800), (2, StartNextLine, 1000)]"
    unfolding a'(7)
    by (simp add: showFeedback_def setTimeout_def sample_app_def Let_def eval_nat_numeral)
  ultimately show ?thesis using a'(1,2,5,6) by simp
qed

section \<open>The store that buildTree fills\<close>

lemma node_ok_iff:
  "node_ok h a \<longleftrightarrow>
     (\<forall>c \<in> set (children (h ! a)). a < c \<and> c < length h \<and> parent (h ! c) = Some a)
     \<and> distinct (children (h ! a))
     \<and> (parent (h ! a) = None \<longrightarrow> a = 0 \<and> move (h ! a) = None)
     \<and> (\<forall>p. parent (h ! a) = Some p \<longrightarrow> p < a \<and> a \<in> set (children (h ! p)) \<and> move (h ! a) \<noteq> None)"
  unfolding node_ok_def list_all_iff by (cases "parent (h ! a)") simp_all

lemma tree_ok_iff:
  "tree_ok h \<longleftrightarrow> h \<noteq> [] \<and> parent (h ! 0) = None \<and> (\<forall>a < length h. node_ok h a)"
  unfolding tree_ok_def list_all_iff by (simp add: Ball_def)

lemma tree_okD:
  assumes "tree_ok h" and "a < length h"
  shows "c \<in> set (children (h ! a)) \<Longrightarrow> a < c \<and> c < length h \<and> parent (h ! c) = Some a"
    and "distinct (children (h ! a))"
    and "parent (h ! a) = None \<Longrightarrow> a = 0 \<and> move (h ! a) = None"
    and "parent (h ! a) = Some p \<Longrightarrow> p < a \<and> a \<in> set (children (h ! p)) \<and> move (h ! a) \<noteq> None"
  using assms unfolding tree_ok_iff node_ok_iff by blast+

lemma length_grow: "length (grow h cur n) = Suc (length h)"
  by (simp add: grow_def)

lemma grow_nth_old:
  "a < length h \<Longrightarrow>
   grow h cur n ! a = (if a = cur then (h ! a)\<lparr>children := children (h ! a) @ [length h]\<rparr> else h ! a)"
  by (simp add: grow_def nth_append)

lemma grow_nth_new: "grow h cur n ! length h = n"
  by (simp add: grow_def nth_append)

lemma grow_fields:
  assumes "a < length h"
  shows "parent (grow h cur n ! a) = parent (h ! a)"
    and "move (grow h cur n ! a) = move (h ! a)"
    and "fen (grow h cur n ! a) = fen (h ! a)"
    and "san (grow h cur n ! a) = san (h ! a)"
    and "node_id (grow h cur n ! a) = node_id (h ! a)"
    and "children (grow h cur n ! a)
         = (if a = cur then children (h ! a) @ [length h] else children (h ! a))"
  using assms by (simp_all add: grow_nth_old)

lemma node_ok_grow_old:
  assumes ok: "tree_ok h" and cur: "cur < length h" and a: "a < length h"
      and n: "parent n = Some cur"
  shows "node_ok (grow h cur n) a"
proof -
  let ?h' = "grow h cur n"
  have kids: "set (children (?h' ! a)) \<subseteq> insert (length h) (set (children (h ! a)))"
    using a by (auto simp: grow_fields)
  have "a < c \<and> c < length ?h' \<and> parent (?h' ! c) = Some a" if "c \<in> set (children (?h' ! a))" for c
  proof (cases "c = length h")
    case True
    then have "a = cur" using that a tree_okD(1) [OF ok a, of c]
      by (auto simp: grow_fields split: if_splits)
    then show ?thesis using True a n by (simp add: grow_nth_new length_grow)
  next
    case False
    then have "c \<in> set (children (h ! a))" using that kids by blast
    from tree_okD(1) [OF ok a this] show ?thesis
      by (simp add: grow_fields length_grow)
  qed
  moreover have "distinct (children (?h' ! a))"
    using tree_okD(2) [OF ok a] tree_okD(1) [OF ok a, of "length h"] a
    by (auto simp: grow_fields)
  moreover have "parent (?h' ! a) = None \<longrightarrow> a = 0 \<and> move (?h' ! a) = None"
    using tree_okD(3) [OF ok a] a by (simp add: grow_fields)
  moreover have "p < a \<and> a \<in> set (children (?h' ! p)) \<and> move (?h' ! a) \<noteq> None"
    if "parent (?h' ! a) = Some p" for p
  proof -
    have p: "parent (h ! a) = Some p" using that a by (simp add: grow_fields)
    from tree_okD(4) [OF ok a p] have "p < a" "a \<in> set (children (h ! p))" "move (h ! a) \<noteq> None"
      by simp_all
    moreover have "p < length h" using \<open>p < a\<close> a by simp
    ultimately show ?thesis using a by (auto simp: grow_fields)
  qed
  ultimately show ?thesis unfolding node_ok_iff by blast
qed

lemma node_ok_grow_new:
  assumes cur: "cur < length h" and n: "parent n = Some cur" "children n = []" "move n \<noteq> None"
  shows "node_ok (grow h cur n) (length h)"
  unfolding node_ok_iff using assms by (simp add: grow_nth_new grow_fields)

lemma tree_ok_grow:
  assumes "tree_ok h" and "cur < length h"
      and "parent n = Some cur" and "children n = []" and "move n \<noteq> None"
  shows "tree_ok (grow h cur n)"
proof -
  have "node_ok (grow h cur n) a" if "a < length (grow h cur n)" for a
  proof (cases "a < length h")
    case True
    then show ?thesis using assms by (intro node_ok_grow_old)
  next
    case False
    then have "a = length h" using that by (simp add: length_grow)
    then show ?thesis using assms by (simp add: node_ok_grow_new)
  qed
  moreover have "0 < length h" using assms(2) by auto
  then have "parent (grow h cur n ! 0) = None"
    using assms(1) by (simp add: grow_fields tree_ok_iff)
  moreover have "grow h cur n \<noteq> []" by (simp add: grow_def)
  ultimately show ?thesis unfolding tree_ok_iff by blast
qed


lemma attach_Inr:
  "cur < length (heap st) \<Longrightarrow>
   attach rnd mv position cur isMain st
   = Inr (length (heap st),
          st\<lparr>heap := grow (heap st) cur (move_node (rnd (calls st)) mv position [] cur isMain),
              calls := Suc (calls st)\<rparr>)"
  by (simp add: attach_def deref_def generateId_def grow_def move_node_def Let_def)


lemma map_node_id_grow:
  "cur < length h \<Longrightarrow> map node_id (grow h cur n) = map node_id h @ [node_id n]"
  by (rule nth_equalityI) (auto simp: length_grow nth_append grow_fields grow_nth_new less_Suc_eq)

lemma fen_is_position:
  assumes "tree_ok h" and "pos_ok E h" and "a < length h"
  shows "\<exists>g. fen (h ! a) = chess_fen E g"
proof (cases "parent (h ! a)")
  case None
  then have "a = 0" using tree_okD(3) [OF assms(1,3)] by simp
  then show ?thesis using assms(2) unfolding pos_ok_def by blast
next
  case (Some p)
  then show ?thesis using assms(2,3) unfolding pos_ok_def move_applied_def by metis
qed

lemma extends_refl: "extends h h"
  by (simp add: extends_def)

lemma extends_trans: "extends h h1 \<Longrightarrow> extends h1 h2 \<Longrightarrow> extends h h2"
  by (auto simp: extends_def)

lemma extends_grow: "extends h (grow h cur n)"
  by (simp add: extends_def length_grow grow_fields)

lemma pos_ok_grow:
  assumes ok: "tree_ok h" and pos: "pos_ok E h" and cur: "cur < length h"
      and g: "chess_fen E g = fen (h ! cur)" and mv: "chess_move E g t = Moved (g', mv)"
  shows "pos_ok E (grow h cur (move_node ident mv (chess_fen E g') [] cur isMain))"
proof -
  let ?n = "move_node ident mv (chess_fen E g') [] cur isMain"
  let ?h' = "grow h cur ?n"
  have "0 < length h" using cur by auto
  then have root: "fen (?h' ! 0) = chess_fen E (new_Chess E)"
    using pos by (simp add: grow_fields pos_ok_def)
  have "\<exists>m. move (?h' ! a) = Some m \<and> san (?h' ! a) = move_san m
            \<and> move_applied E (fen (?h' ! p)) m (fen (?h' ! a))"
    if a: "a < length ?h'" and p: "parent (?h' ! a) = Some p" for a p
  proof (cases "a < length h")
    case True
    then have p': "parent (h ! a) = Some p" using p by (simp add: grow_fields)
    then have "p < length h" using tree_okD(4) [OF ok True p'] True by simp
    then show ?thesis using pos True p' unfolding pos_ok_def by (simp add: grow_fields)
  next
    case False
    then have a': "a = length h" using a by (simp add: length_grow)
    then have "p = cur" using p by (simp add: grow_nth_new move_node_def)
    moreover have "move_applied E (fen (h ! cur)) mv (chess_fen E g')"
      unfolding move_applied_def using g mv by blast
    ultimately show ?thesis using a' cur
      by (simp add: grow_nth_new grow_fields move_node_def)
  qed
  then show ?thesis using root unfolding pos_ok_def by blast
qed

lemma attach_inv:
  assumes inv: "loop_inv E rnd cur g st"
      and mv: "chess_move E g t = Moved (g', mv)"
      and at: "attach rnd mv (chess_fen E g') cur isMain st = Inr (r, st')"
  shows "loop_inv E rnd r g' st' \<and> loop_post E rnd st st'"
proof -
  let ?n = "move_node (rnd (calls st)) mv (chess_fen E g') [] cur isMain"
  have cur: "cur < length (heap st)" and ok: "tree_ok (heap st)" and ids: "ids_ok rnd st"
    using inv by (simp_all add: loop_inv_def)
  have r: "r = length (heap st)" and h': "heap st' = grow (heap st) cur ?n"
    and c': "calls st' = Suc (calls st)"
    using at attach_Inr [OF cur, of rnd mv "chess_fen E g'" isMain] by auto
  have 1: "tree_ok (heap st')"
    unfolding h' using ok cur by (rule tree_ok_grow) (simp_all add: move_node_def)
  have 2: "ids_ok rnd st'"
    using ids unfolding ids_ok_def h' c' by (simp add: map_node_id_grow [OF cur] move_node_def)
  have 3: "extends (heap st) (heap st')" unfolding h' by (rule extends_grow)
  have 4: "pos_ok E (heap st') \<and> chess_fen E g' = fen (heap st' ! r)" if "fen_law E"
  proof
    have "pos_ok E (heap st)" "chess_fen E g = fen (heap st ! cur)"
      using inv that by (simp_all add: loop_inv_def)
    then show "pos_ok E (heap st')" unfolding h' using ok cur mv by (intro pos_ok_grow)
    show "chess_fen E g' = fen (heap st' ! r)"
      unfolding h' r by (simp add: grow_nth_new move_node_def)
  qed
  have "r < length (heap st')" unfolding h' r by (simp add: length_grow)
  then show ?thesis using 1 2 3 4 by (simp add: loop_inv_def loop_post_def)
qed

lemma branch_inv:
  assumes inv: "loop_inv E rnd cur g st"
      and bp: "parent (heap st ! cur) = Some bp"
      and bg: "load_Chess E (fen (heap st ! bp)) = Some bg"
  shows "loop_inv E rnd bp bg st"
proof -
  have cur: "cur < length (heap st)" and ok: "tree_ok (heap st)"
    using inv by (simp_all add: loop_inv_def)
  have lt: "bp < length (heap st)" using tree_okD(4) [OF ok cur bp] cur by simp
  have "chess_fen E bg = fen (heap st ! bp)" if law: "fen_law E"
  proof -
    have "pos_ok E (heap st)" using inv law by (simp add: loop_inv_def)
    from fen_is_position [OF ok this lt] obtain g0 where "fen (heap st ! bp) = chess_fen E g0" ..
    then show ?thesis using bg law unfolding fen_law_def by metis
  qed
  then show ?thesis using inv lt by (simp add: loop_inv_def)
qed

lemma post_refl: "loop_inv E rnd cur g st \<Longrightarrow> loop_post E rnd st st"
  by (simp add: loop_inv_def loop_post_def extends_refl)

lemma post_trans: "loop_post E rnd st st1 \<Longrightarrow> loop_post E rnd st1 st2 \<Longrightarrow> loop_post E rnd st st2"
  by (auto simp: loop_post_def intro: extends_trans)

lemma post_inv: "loop_inv E rnd cur g st \<Longrightarrow> loop_post E rnd st st1 \<Longrightarrow> loop_inv E rnd cur g st1"
  by (auto simp: loop_inv_def loop_post_def extends_def)


lemma loop_done:
  "\<not> i < length tokens \<Longrightarrow> buildTree_loop E rnd tokens isMain i cur g st = Inr (i, st)"
  by (subst buildTree_loop.simps) simp

lemma loop_close:
  "i < length tokens \<Longrightarrow> tokens ! i = [RPAREN]
   \<Longrightarrow> buildTree_loop E rnd tokens isMain i cur g st = Inr (i + 1, st)"
  by (subst buildTree_loop.simps) simp

lemma loop_empty:
  "i < length tokens \<Longrightarrow> tokens ! i = []
   \<Longrightarrow> buildTree_loop E rnd tokens isMain i cur g st
       = buildTree_loop E rnd tokens isMain (i + 1) cur g st"
  by (subst buildTree_loop.simps) simp

lemma loop_move:
  "i < length tokens \<Longrightarrow> tokens ! i \<noteq> [LPAREN] \<Longrightarrow> tokens ! i \<noteq> [RPAREN] \<Longrightarrow> tokens ! i \<noteq> []
   \<Longrightarrow> chess_move E g (tokens ! i) = Moved (g', mv)
   \<Longrightarrow> buildTree_loop E rnd tokens isMain i cur g st
       = (case attach rnd mv (chess_fen E g') cur isMain st of
            Inl e \<Rightarrow> Inl e
          | Inr (node, st') \<Rightarrow> buildTree_loop E rnd tokens isMain (i + 1) node g' st')"
  by (subst buildTree_loop.simps) (simp add: Let_def)

lemma loop_open_root:
  "i < length tokens \<Longrightarrow> tokens ! i = [LPAREN] \<Longrightarrow> cur < length (heap st)
   \<Longrightarrow> parent (heap st ! cur) = None
   \<Longrightarrow> buildTree_loop E rnd tokens isMain i cur g st
       = buildTree_loop E rnd tokens isMain (matchParen tokens 1 (i + 1)) cur g st"
  by (subst buildTree_loop.simps) (auto simp: Let_def deref_def split: option.splits sum.splits)

lemma loop_open_branch:
  "i < length tokens \<Longrightarrow> tokens ! i = [LPAREN] \<Longrightarrow> cur < length (heap st)
   \<Longrightarrow> parent (heap st ! cur) = Some bp \<Longrightarrow> bp < length (heap st)
   \<Longrightarrow> buildTree_loop E rnd tokens isMain i cur g st
       = (case load_Chess E (fen (heap st ! bp)) of
            None \<Rightarrow> Inl (InvalidFen (fen (heap st ! bp)))
          | Some bg \<Rightarrow>
             (case buildTree_loop E rnd
                     (slice tokens (i + 1) (matchParen tokens 1 (i + 1) - 1)) False 0 bp bg st of
                Inl e \<Rightarrow> Inl e
              | Inr (k, st') \<Rightarrow>
                  buildTree_loop E rnd tokens isMain (matchParen tokens 1 (i + 1)) cur g st'))"
  by (subst buildTree_loop.simps) (auto simp: Let_def deref_def split: option.splits sum.splits)

lemma buildTree_loop_post:
  "loop_inv E rnd cur g st \<Longrightarrow> buildTree_loop E rnd tokens isMain i cur g st = Inr (k, st')
   \<Longrightarrow> loop_post E rnd st st'"
proof (induction E rnd tokens isMain i cur g st arbitrary: k st' rule: buildTree_loop.induct)
  case (1 E rnd tokens isMain i cur g st)
  note inv = "1.prems"(1) and run = "1.prems"(2)
  have cur: "cur < length (heap st)" and ok: "tree_ok (heap st)"
    using inv by (simp_all add: loop_inv_def)
  have dcur: "deref (heap st) cur = Some (heap st ! cur)" using cur by (simp add: deref_def)
  show ?case
  proof (cases "i < length tokens")
    case False
    then have "st' = st" using run by (simp add: loop_done)
    then show ?thesis using inv by (simp add: post_refl)
  next
    case True
    consider (lparen) "tokens ! i = [LPAREN]" | (rparen) "tokens ! i = [RPAREN]"
      | (blank) "tokens ! i = []"
      | (word) "tokens ! i \<noteq> [LPAREN]" "tokens ! i \<noteq> [RPAREN]" "tokens ! i \<noteq> []"
      by blast
    then show ?thesis
    proof cases
      case lparen
      show ?thesis
      proof (cases "parent (heap st ! cur)")
        case None
        have "buildTree_loop E rnd tokens isMain (matchParen tokens 1 (i + 1)) cur g st = Inr (k, st')"
          using run by (simp add: loop_open_root [OF True lparen cur None])
        with inv show ?thesis
          by (rule "1.IH"(1) [OF True refl lparen refl refl dcur None])
      next
        case (Some bp)
        have bp: "bp < length (heap st)" using tree_okD(4) [OF ok cur Some] cur by simp
        have dbp: "deref (heap st) bp = Some (heap st ! bp)" using bp by (simp add: deref_def)
        note unfold = loop_open_branch [OF True lparen cur Some bp, of E rnd isMain g]
        obtain bg where bg: "load_Chess E (fen (heap st ! bp)) = Some bg"
          using run unfolding unfold by (cases "load_Chess E (fen (heap st ! bp))") simp_all
        let ?inner = "buildTree_loop E rnd
            (slice tokens (i + 1) (matchParen tokens 1 (i + 1) - 1)) False 0 bp bg st"
        obtain k1 st1 where inner: "?inner = Inr (k1, st1)"
          using run unfolding unfold bg by (cases ?inner) auto
        have rest: "buildTree_loop E rnd tokens isMain (matchParen tokens 1 (i + 1)) cur g st1
                    = Inr (k, st')"
          using run unfolding unfold bg option.case inner by simp
        have p1: "loop_post E rnd st st1"
          using branch_inv [OF inv Some bg] inner
          by (rule "1.IH"(2) [OF True refl lparen refl refl dcur Some dbp bg])
        have "loop_post E rnd st1 st'"
          using post_inv [OF inv p1] rest
          by (rule "1.IH"(3) [OF True refl lparen refl refl dcur Some dbp bg inner refl])
        with p1 show ?thesis by (rule post_trans)
      qed
    next
      case rparen
      then have "st' = st" using run True by (simp add: loop_close)
      then show ?thesis using inv by (simp add: post_refl)
    next
      case blank
      then have ne: "tokens ! i \<noteq> [LPAREN]" "tokens ! i \<noteq> [RPAREN]" by simp_all
      have "buildTree_loop E rnd tokens isMain (i + 1) cur g st = Inr (k, st')"
        using run by (simp add: loop_empty [OF True blank])
      with inv show ?thesis by (rule "1.IH"(4) [OF True refl ne blank])
    next
      case word
      show ?thesis
      proof (cases "chess_move E g (tokens ! i)")
        case (Moved x)
        obtain g' mv where x: "x = (g', mv)" by (cases x)
        note mv = Moved [unfolded x]
        note unfold = loop_move [OF True word mv, of rnd isMain cur st]
        obtain r st1 where at: "attach rnd mv (chess_fen E g') cur isMain st = Inr (r, st1)"
          using attach_Inr [OF cur] by blast
        have rest: "buildTree_loop E rnd tokens isMain (i + 1) r g' st1 = Inr (k, st')"
          using run unfolding unfold at by simp
        from attach_inv [OF inv mv at] have i1: "loop_inv E rnd r g' st1"
          and p1: "loop_post E rnd st st1" by simp_all
        have "loop_post E rnd st1 st'"
          using i1 rest by (rule "1.IH"(5) [OF True refl word Moved x [symmetric] at refl])
        with p1 show ?thesis by (rule post_trans)
      next
        case Null
        have "buildTree_loop E rnd tokens isMain (i + 1) cur g st = Inr (k, st')"
          using run illegal_token_step [OF True word(1,2), of E g rnd isMain cur st] Null by simp
        with inv show ?thesis by (rule "1.IH"(6) [OF True refl word Null])
      next
        case Throws
        have "buildTree_loop E rnd tokens isMain (i + 1) cur g st = Inr (k, st')"
          using run illegal_token_step [OF True word(1,2), of E g rnd isMain cur st] Throws by simp
        with inv show ?thesis by (rule "1.IH"(7) [OF True refl word Throws])
      qed
    qed
  qed
qed


lemma tree_ok_root: "tree_ok [root_node E]"
  by (simp add: tree_ok_def node_ok_def root_node_def)

lemma loop_inv_start:
  "loop_inv E rnd 0 (new_Chess E) \<lparr>heap = [root_node E], calls = 0\<rparr>"
  by (simp add: loop_inv_def tree_ok_root ids_ok_def pos_ok_def) (simp add: root_node_def)

lemma parse_post:
  assumes "parsePgnToTree E rnd input = Inr h"
  shows "tree_ok h" and "map node_id h = js ''root'' # map rnd [0..<length h - 1]"
    and "fen_law E \<Longrightarrow> pos_ok E h"
proof -
  let ?st0 = "\<lparr>heap = [root_node E], calls = 0\<rparr>"
  have "\<exists>st. loop_post E rnd ?st0 st \<and> h = heap st"
  proof (cases "cleanPgn input = []")
    case True
    then have "h = heap ?st0" using assms by (simp add: parsePgnToTree_def)
    then show ?thesis using post_refl [OF loop_inv_start] by blast
  next
    case False
    let ?run = "buildTree_loop E rnd (tokenize (cleanPgn input)) True 0 0 (new_Chess E) ?st0"
    obtain k st where run: "?run = Inr (k, st)" and h: "h = heap st"
      using assms False by (cases ?run) (auto simp: parsePgnToTree_def buildTree_def)
    from buildTree_loop_post [OF loop_inv_start run] h show ?thesis by blast
  qed
  then obtain st where post: "loop_post E rnd ?st0 st" and h: "h = heap st" by blast
  show "tree_ok h" using post h by (simp add: loop_post_def)
  have ids: "map node_id h = js ''root'' # map rnd [0..<calls st]"
    using post h by (simp add: loop_post_def ids_ok_def)
  then have "length h = Suc (calls st)" using length_map [of node_id h] by simp
  then show "map node_id h = js ''root'' # map rnd [0..<length h - 1]" using ids by simp
  show "pos_ok E h" if "fen_law E" using post h that by (simp add: loop_post_def)
qed

section \<open>Parsing the same text twice\<close>
















section \<open>Paths and lines in such a store\<close>

lemma replayed_snoc:
  "replayed E h path \<Longrightarrow> path \<noteq> []
   \<Longrightarrow> \<exists>mv. move (h ! c) = Some mv \<and> move_applied E (fen (h ! last path)) mv (fen (h ! c))
   \<Longrightarrow> replayed E h (path @ [c])"
  by (induction E h path rule: replayed.induct) auto

lemma depth_exists:
  assumes "tree_ok h"
  shows "a < length h \<Longrightarrow> \<exists>d. at_depth h a d"
proof (induction a rule: less_induct)
  case (less a)
  show ?case
  proof (cases "parent (h ! a)")
    case None
    then have "a = 0" using tree_okD(3) [OF assms less.prems] by simp
    then show ?thesis using depth_root by blast
  next
    case (Some p)
    from tree_okD(4) [OF assms less.prems Some] have p: "p < a" "a \<in> set (children (h ! p))"
      by simp_all
    then have "p < length h" using less.prems by simp
    with less.IH [OF p(1)] obtain d where "at_depth h p d" by blast
    then have "at_depth h a (Suc d)" using \<open>p < length h\<close> p(2) by (rule depth_child)
    then show ?thesis by blast
  qed
qed

lemma path_of_depth:
  assumes ok: "tree_ok h"
  shows "at_depth h a d \<Longrightarrow>
         a < length h
         \<and> (\<exists>path. (\<forall>acc. path_loop h (Some a) acc = Some (path @ acc))
                \<and> (\<forall>acc. line_loop h (Some a) acc = Some (tl path @ acc))
                \<and> length path = Suc d \<and> hd path = 0 \<and> last path = a
                \<and> (pos_ok E h \<longrightarrow> replayed E h path))"
proof (induction rule: at_depth.induct)
  case depth_root
  have 0: "0 < length h" using ok by (simp add: tree_ok_iff)
  have p: "parent (h ! 0) = None" using ok by (simp add: tree_ok_iff)
  then have m: "move (h ! 0) = None" using tree_okD(3) [OF ok 0] by simp
  have "\<forall>acc. path_loop h (Some 0) acc = Some ([0] @ acc)"
    using 0 p by (subst path_loop.simps, simp add: deref_def) (subst path_loop.simps, simp)
  moreover have "\<forall>acc. line_loop h (Some 0) acc = Some (tl [0] @ acc)"
    using 0 m by (subst line_loop.simps) (simp add: deref_def)
  ultimately show ?case using 0 by (intro conjI exI [of _ "[0]"]) simp_all
next
  case (depth_child p d c)
  from depth_child.IH obtain path where
    path: "\<forall>acc. path_loop h (Some p) acc = Some (path @ acc)"
      "\<forall>acc. line_loop h (Some p) acc = Some (tl path @ acc)"
      "length path = Suc d" "hd path = 0" "last path = p" "pos_ok E h \<longrightarrow> replayed E h path"
    by blast
  from tree_okD(1) [OF ok depth_child.hyps(2,3)] have c: "c < length h" "parent (h ! c) = Some p"
    by simp_all
  from tree_okD(4) [OF ok c] have m: "move (h ! c) \<noteq> None" by simp
  have ne: "path \<noteq> []" using path(3) by auto
  have "\<forall>acc. path_loop h (Some c) acc = Some ((path @ [c]) @ acc)"
    using c path(1) by (subst path_loop.simps) (simp add: deref_def)
  moreover have "\<forall>acc. line_loop h (Some c) acc = Some (tl (path @ [c]) @ acc)"
    using c m path(2) ne by (subst line_loop.simps) (simp add: deref_def)
  moreover have "hd (path @ [c]) = 0" using ne path(4) by simp
  moreover have "replayed E h (path @ [c])" if pos: "pos_ok E h"
  proof -
    from pos c obtain mv where "move (h ! c) = Some mv"
      "move_applied E (fen (h ! p)) mv (fen (h ! c))"
      unfolding pos_ok_def by blast
    then show ?thesis using path(5,6) pos ne by (intro replayed_snoc) auto
  qed
  ultimately show ?case using c(1) path(3) by (intro conjI exI [of _ "path @ [c]"]) simp_all
qed


text \<open>
  When the position determines the moves, the moves of the nodes on the path to a node
  can be made one after the other from the starting position, and each step is at the
  position of its node.
\<close>

lemma last_game_snoc: "last_game g (steps @ [(g', mv)]) = g'"
  by (cases steps) (simp_all add: last_game_def)

lemma last_game_Cons: "last_game g ((g1, m1) # steps) = last_game g1 steps"
  by (cases steps) (simp_all add: last_game_def)

lemma feed_snoc:
  "feed E g ts = Some steps \<Longrightarrow> chess_move E (last_game g steps) t = Moved (g2, mv)
   \<Longrightarrow> feed E g (ts @ [t]) = Some (steps @ [(g2, mv)])"
proof (induction ts arbitrary: g steps)
  case Nil
  then show ?case by (simp add: last_game_def)
next
  case (Cons t0 ts)
  from Cons.prems(1) obtain g1 m1 steps1 where
    s: "chess_move E g t0 = Moved (g1, m1)" "feed E g1 ts = Some steps1"
      "steps = (g1, m1) # steps1"
    by (auto split: move_result.splits)
  have "chess_move E (last_game g1 steps1) t = Moved (g2, mv)"
    using Cons.prems(2) unfolding s(3) last_game_Cons .
  from Cons.IH [OF s(2) this] show ?case using s(1,3) by simp
qed

lemma feed_of_depth:
  assumes ok: "tree_ok h" and pos: "pos_ok E h" and det: "fen_determines E"
  shows "at_depth h a d \<Longrightarrow>
         \<exists>path ts steps.
            (\<forall>acc. path_loop h (Some a) acc = Some (path @ acc)) \<and> path \<noteq> []
          \<and> feed E (new_Chess E) ts = Some steps
          \<and> map (step_view E) steps = map (node_view h) (tl path)
          \<and> chess_fen E (last_game (new_Chess E) steps) = fen (h ! a)
          \<and> (san_replays E \<longrightarrow> ts = map (\<lambda>n. san (h ! n)) (tl path))"
proof (induction rule: at_depth.induct)
  case depth_root
  have 0: "0 < length h" using ok by (simp add: tree_ok_iff)
  have p: "parent (h ! 0) = None" using ok by (simp add: tree_ok_iff)
  have "\<forall>acc. path_loop h (Some 0) acc = Some ([0] @ acc)"
    using 0 p by (subst path_loop.simps, simp add: deref_def) (subst path_loop.simps, simp)
  moreover have "feed E (new_Chess E) [] = Some []" by simp
  moreover have "chess_fen E (last_game (new_Chess E) []) = fen (h ! 0)"
    using pos by (simp add: pos_ok_def last_game_def)
  ultimately show ?case
    by (intro exI [of _ "[0]"] exI [of _ "[]"] conjI) simp_all
next
  case (depth_child p d c)
  from depth_child.IH obtain path ts steps where
    ih: "\<forall>acc. path_loop h (Some p) acc = Some (path @ acc)" "path \<noteq> []"
      "feed E (new_Chess E) ts = Some steps"
      "map (step_view E) steps = map (node_view h) (tl path)"
      "chess_fen E (last_game (new_Chess E) steps) = fen (h ! p)"
      "san_replays E \<longrightarrow> ts = map (\<lambda>n. san (h ! n)) (tl path)"
    by (elim exE conjE)
  from tree_okD(1) [OF ok depth_child.hyps(2,3)] have c: "c < length h" "parent (h ! c) = Some p"
    by simp_all
  from pos c obtain mv where mv: "move (h ! c) = Some mv" "san (h ! c) = move_san mv"
    "move_applied E (fen (h ! p)) mv (fen (h ! c))"
    unfolding pos_ok_def by blast
  from mv(3) obtain g t g' where
    g: "chess_fen E g = fen (h ! p)" "chess_move E g t = Moved (g', mv)"
      "chess_fen E g' = fen (h ! c)"
    unfolding move_applied_def by (elim exE conjE)
  have same: "chess_fen E g = chess_fen E (last_game (new_Chess E) steps)"
    using g(1) ih(5) by simp
  from det same g(2) obtain g2 where
    made: "chess_move E (last_game (new_Chess E) steps) t = Moved (g2, mv)"
      and at: "chess_fen E g2 = chess_fen E g'"
    unfolding fen_determines_def by blast
  define t' where "t' = (if san_replays E then move_san mv else t)"
  have "chess_move E (last_game (new_Chess E) steps) (move_san mv) = Moved (g2, mv)"
    if "san_replays E"
    using that made unfolding san_replays_def by blast
  then have "chess_move E (last_game (new_Chess E) steps) t' = Moved (g2, mv)"
    using made by (simp add: t'_def)
  note g2 = this at
  have f: "feed E (new_Chess E) (ts @ [t']) = Some (steps @ [(g2, mv)])"
    using ih(3) g2(1) by (rule feed_snoc)
  have s: "san_replays E \<longrightarrow> ts @ [t'] = map (\<lambda>n. san (h ! n)) (tl (path @ [c]))"
    using ih(2,6) mv(2) by (simp add: t'_def)
  have pl: "\<forall>acc. path_loop h (Some c) acc = Some ((path @ [c]) @ acc)"
    using c ih(1) by (subst path_loop.simps) (simp add: deref_def)
  have m: "map (step_view E) (steps @ [(g2, mv)]) = map (node_view h) (tl (path @ [c]))"
    using ih(2,4) mv(1) g2(2) g(3) by (simp add: step_view_def node_view_def)
  have e: "chess_fen E (last_game (new_Chess E) (steps @ [(g2, mv)])) = fen (h ! c)"
    using g2(2) g(3) by (simp add: last_game_snoc)
  show ?case
    by (intro exI [of _ "path @ [c]"] exI [of _ "ts @ [t']"] exI [of _ "steps @ [(g2, mv)]"]
          conjI pl f m e s) simp
qed


text \<open>
  C5. For every node of a tree that \<open>parsePgnToTree\<close> returns, \<open>getPathToNode\<close> returns a
  path that starts with the root and ends with the node, and whose length is the depth
  of the node plus 1; every node but the root has a parent. When a game made from a
  position is at that position (\<open>fen_law\<close>), the root holds the starting position, the
  position of every other node is that of its parent with the move of the node applied,
  and so each node of the path is reached from the one before by its move. When moreover
  two games at the same position make the same move to the same position
  (\<open>fen_determines\<close>), one game replays the path: there are move texts that \<open>feed\<close> gives
  one after the other to a new game, every one is accepted, the moves made are the moves
  of the nodes of the path behind the root, in path order, the position after each is
  the position of its node, and the game ends at the position of the node. When a game
  also makes a move from its notation (\<open>san_replays\<close>), these texts are the notations
  \<^verbatim>\<open>san\<close> of the nodes.
\<close>

theorem getPathToNode_from_root:
  assumes "parsePgnToTree E rnd input = Inr h" and "a < length h"
  shows "\<exists>path. getPathToNode h a = Some path \<and> hd path = 0 \<and> last path = a
     \<and> (\<forall>d. at_depth h a d \<longleftrightarrow> length path = d + 1)
     \<and> (a \<noteq> 0 \<longrightarrow> (\<exists>p. parent (h ! a) = Some p))
     \<and> (fen_law E \<longrightarrow>
          fen (h ! 0) = chess_fen E (new_Chess E) \<and> replayed E h path
          \<and> (\<forall>p. parent (h ! a) = Some p \<longrightarrow>
                (\<exists>mv. move (h ! a) = Some mv \<and> san (h ! a) = move_san mv
                      \<and> move_applied E (fen (h ! p)) mv (fen (h ! a)))))
     \<and> (fen_law E \<and> fen_determines E \<longrightarrow>
          (\<exists>ts steps. feed E (new_Chess E) ts = Some steps
             \<and> map (step_view E) steps = map (node_view h) (tl path)
             \<and> chess_fen E (last_game (new_Chess E) steps) = fen (h ! a)
             \<and> (san_replays E \<longrightarrow> ts = map (\<lambda>n. san (h ! n)) (tl path))))"
proof -
  note ok = parse_post(1) [OF assms(1)]
  from depth_exists [OF ok assms(2)] obtain d0 where d0: "at_depth h a d0" ..
  from path_of_depth [OF ok d0, of E] obtain path where
    path: "\<forall>acc. path_loop h (Some a) acc = Some (path @ acc)" "length path = Suc d0"
      "hd path = 0" "last path = a" "pos_ok E h \<longrightarrow> replayed E h path"
    by blast
  have get: "getPathToNode h a = Some path" using path(1) by (simp add: getPathToNode_def)
  have depth: "at_depth h a d \<longleftrightarrow> length path = d + 1" for d
  proof
    assume "at_depth h a d"
    from path_of_depth [OF ok this, of E] obtain path' where
      "\<forall>acc. path_loop h (Some a) acc = Some (path' @ acc)" "length path' = Suc d"
      by blast
    then show "length path = d + 1" using path(1) by (metis Suc_eq_plus1 append_Nil2 option.inject)
  next
    assume "length path = d + 1"
    then have "d = d0" using path(2) by simp
    then show "at_depth h a d" using d0 by simp
  qed
  have par: "\<exists>p. parent (h ! a) = Some p" if "a \<noteq> 0"
    using tree_okD(3) [OF ok assms(2)] that by (cases "parent (h ! a)") simp_all
  have pos: "fen (h ! 0) = chess_fen E (new_Chess E) \<and> replayed E h path
          \<and> (\<forall>p. parent (h ! a) = Some p \<longrightarrow>
                (\<exists>mv. move (h ! a) = Some mv \<and> san (h ! a) = move_san mv
                      \<and> move_applied E (fen (h ! p)) mv (fen (h ! a))))" if "fen_law E"
  proof -
    have p: "pos_ok E h" using parse_post(3) [OF assms(1) that] .
    then show ?thesis using path(5) assms(2) unfolding pos_ok_def by blast
  qed
  have rep: "\<exists>ts steps. feed E (new_Chess E) ts = Some steps
             \<and> map (step_view E) steps = map (node_view h) (tl path)
             \<and> chess_fen E (last_game (new_Chess E) steps) = fen (h ! a)
             \<and> (san_replays E \<longrightarrow> ts = map (\<lambda>n. san (h ! n)) (tl path))"
    if law: "fen_law E" and det: "fen_determines E"
  proof -
    have p: "pos_ok E h" using parse_post(3) [OF assms(1) law] .
    from feed_of_depth [OF ok p det d0] obtain path' ts steps where
      f: "\<forall>acc. path_loop h (Some a) acc = Some (path' @ acc)"
        "feed E (new_Chess E) ts = Some steps"
        "map (step_view E) steps = map (node_view h) (tl path')"
        "chess_fen E (last_game (new_Chess E) steps) = fen (h ! a)"
        "san_replays E \<longrightarrow> ts = map (\<lambda>n. san (h ! n)) (tl path')"
      by (elim exE conjE)
    have "path' = path" using spec [OF f(1), of "[]"] spec [OF path(1), of "[]"] by simp
    then show ?thesis using f(2,3,4,5) by (intro exI [of _ ts] exI [of _ steps]) simp
  qed
  have front: "getPathToNode h a = Some path \<and> hd path = 0 \<and> last path = a
     \<and> (\<forall>d. at_depth h a d \<longleftrightarrow> length path = d + 1)
     \<and> (a \<noteq> 0 \<longrightarrow> (\<exists>p. parent (h ! a) = Some p))"
    using get path(3,4) depth par by blast
  show ?thesis
    by (rule exI [of _ path]) (intro conjI impI, insert front pos rep, simp_all)
qed

lemma parse_sample_tree:
  "parsePgnToTree sample_chess sample_ids (js ''1. e4 (1. d4 d5) e5'') = Inr sample_tree"
proof -
  have 1: "chess_move sample_chess (new_Chess sample_chess) (js ''e4'')
           = Moved (js '' e4'', sample_move (js ''e4''))"
    by (simp add: sample_chess_def sample_squares_def js_def)
  have 2: "load_Chess sample_chess (chess_fen sample_chess (new_Chess sample_chess)) = Some []"
    by (simp add: sample_chess_def)
  have 3: "chess_move sample_chess [] (js ''d4'') = Moved (js '' d4'', sample_move (js ''d4''))"
    by (simp add: sample_chess_def sample_squares_def js_def)
  have 4: "chess_move sample_chess (js '' d4'') (js ''d5'')
           = Moved (js '' d4 d5'', sample_move (js ''d5''))"
    by (simp add: sample_chess_def sample_squares_def js_def)
  have 5: "chess_move sample_chess (js '' e4'') (js ''e5'')
           = Moved (js '' e4 e5'', sample_move (js ''e5''))"
    by (simp add: sample_chess_def sample_squares_def js_def)
  show ?thesis
    unfolding parse_variation_store [OF 1 2 3 4 5] sample_tree_def
    by (simp add: root_node_def sample_ids_def sample_chess_def js_def)
qed

lemma fen_law_sample: "fen_law sample_chess"
  by (simp add: fen_law_def sample_chess_def)

lemma fen_determines_sample: "fen_determines sample_chess"
  by (simp add: fen_determines_def sample_chess_def)

lemma san_replays_sample: "san_replays sample_chess"
  by (auto simp: san_replays_def sample_chess_def sample_move_def split: option.splits)

theorem getPathToNode_from_root_witness:
  "\<exists>path. getPathToNode sample_tree 3 = Some path \<and> path = [0, 2, 3]
     \<and> at_depth sample_tree 3 2
     \<and> fen (sample_tree ! 0) = chess_fen sample_chess (new_Chess sample_chess)
     \<and> replayed sample_chess sample_tree path
     \<and> move_applied sample_chess (js '' d4'') (sample_move (js ''d5'')) (js '' d4 d5'')
     \<and> (\<exists>steps. feed sample_chess (new_Chess sample_chess) [js ''d4'', js ''d5''] = Some steps
           \<and> map (step_view sample_chess) steps
               = [(Some (sample_move (js ''d4'')), js '' d4''),
                  (Some (sample_move (js ''d5'')), js '' d4 d5'')]
           \<and> chess_fen sample_chess (last_game (new_Chess sample_chess) steps) = js '' d4 d5'')"
proof -
  have a: "3 < length sample_tree" by (simp add: sample_tree_def)
  from getPathToNode_from_root [OF parse_sample_tree a] fen_law_sample fen_determines_sample
  obtain path where
    path: "getPathToNode sample_tree 3 = Some path"
      "\<forall>d. at_depth sample_tree 3 d \<longleftrightarrow> length path = d + 1"
      "fen (sample_tree ! 0) = chess_fen sample_chess (new_Chess sample_chess)"
      "replayed sample_chess sample_tree path"
      "\<forall>p. parent (sample_tree ! 3) = Some p \<longrightarrow>
         (\<exists>mv. move (sample_tree ! 3) = Some mv \<and> san (sample_tree ! 3) = move_san mv
           \<and> move_applied sample_chess (fen (sample_tree ! p)) mv (fen (sample_tree ! 3)))"
      "\<exists>ts steps. feed sample_chess (new_Chess sample_chess) ts = Some steps
         \<and> map (step_view sample_chess) steps = map (node_view sample_tree) (tl path)
         \<and> chess_fen sample_chess (last_game (new_Chess sample_chess) steps)
             = fen (sample_tree ! 3)
         \<and> (san_replays sample_chess \<longrightarrow> ts = map (\<lambda>n. san (sample_tree ! n)) (tl path))"
    by blast
  have "getPathToNode sample_tree 3 = Some [0, 2, 3]"
    by (simp add: getPathToNode_def path_loop.simps deref_def sample_tree_def move_node_def)
  then have p: "path = [0, 2, 3]" using path(1) by simp
  then have "at_depth sample_tree 3 2" using path(2) by simp
  moreover have "move_applied sample_chess (js '' d4'') (sample_move (js ''d5'')) (js '' d4 d5'')"
    using path(5) by (simp add: sample_tree_def move_node_def)
  moreover have "\<exists>steps. feed sample_chess (new_Chess sample_chess) [js ''d4'', js ''d5''] = Some steps
           \<and> map (step_view sample_chess) steps
               = [(Some (sample_move (js ''d4'')), js '' d4''),
                  (Some (sample_move (js ''d5'')), js '' d4 d5'')]
           \<and> chess_fen sample_chess (last_game (new_Chess sample_chess) steps) = js '' d4 d5''"
  proof -
    from path(6) san_replays_sample obtain ts steps where
      r: "feed sample_chess (new_Chess sample_chess) ts = Some steps"
        "map (step_view sample_chess) steps = map (node_view sample_tree) (tl path)"
        "chess_fen sample_chess (last_game (new_Chess sample_chess) steps) = fen (sample_tree ! 3)"
        "ts = map (\<lambda>n. san (sample_tree ! n)) (tl path)"
      by blast
    have ts: "ts = [js ''d4'', js ''d5'']"
      unfolding r(4) p
      by (simp add: sample_tree_def move_node_def sample_move_def split: option.splits)
    have "feed sample_chess (new_Chess sample_chess) [js ''d4'', js ''d5''] = Some steps"
      using r(1) unfolding ts .
    moreover have "map (step_view sample_chess) steps
               = [(Some (sample_move (js ''d4'')), js '' d4''),
                  (Some (sample_move (js ''d5'')), js '' d4 d5'')]"
      unfolding r(2) p by (simp add: node_view_def sample_tree_def move_node_def)
    moreover have "chess_fen sample_chess (last_game (new_Chess sample_chess) steps) = js '' d4 d5''"
      unfolding r(3) by (simp add: sample_tree_def move_node_def)
    ultimately show ?thesis by (intro exI [of _ steps] conjI)
  qed
  ultimately show ?thesis using path(1,3,4) p by (intro exI [of _ path] conjI)
qed

section \<open>Line selection\<close>

lemma tree_ok_ordered: "tree_ok h \<Longrightarrow> heap_ordered h"
  unfolding heap_ordered_iff using tree_okD(1) by blast





















end
